theory Spec2Isabelle
  imports Main "HOL-Library.Word"
begin

unbundle bit_operations_syntax

section \<open>Values, errors and the transport\<close>

text \<open>
  The MQTT client of \<^verbatim>\<open>umqttsimple.py\<close> and its retry wrapper of
  \<^verbatim>\<open>umqttrobust.py\<close> run on MicroPython (the header of both files names
  MicroPython v1.23.0). Python integers are \<open>int\<close>; the elements of \<^verbatim>\<open>bytes\<close> and
  \<^verbatim>\<open>bytearray\<close> objects are 8-bit words; strings that go on the wire are byte lists.
  Every exception the code can raise is a constructor of \<open>error\<close>, and a call returns
  \<open>Inl\<close> of the exception or \<open>Inr\<close> of its value, together with the new state.
\<close>

type_synonym byte = "8 word"
type_synonym bytes = "byte list"

datatype error =
    OSError
  | MQTTException byte
  | AssertionError
  | IndexError
  | TypeError
  | AttributeError
  | MemoryError

text \<open>
  The socket is the external transport. What the peer will send is a finite script of
  items: a byte, a gap (no data available at this moment) or a transport error; after
  the last item the peer has closed the connection. \<open>wfail\<close> scripts the outcome of the
  next calls of \<^verbatim>\<open>write\<close> (\<open>True\<close>: the call raises \<^verbatim>\<open>OSError\<close>; an exhausted
  script: the call succeeds). \<open>tx\<close> and \<open>rd\<close> log the bytes written and the bytes
  returned by reads so far.
\<close>

datatype item = B byte | Gap | Err

datatype sock_status = Unconnected | Connected | Closed

record socket =
  status :: sock_status
  blocking :: bool
  rx :: "item list"
  wfail :: "bool list"
  tx :: bytes
  rd :: bytes

text \<open>
  \<open>gather blk n its\<close> collects up to \<open>n\<close> bytes. A blocking read waits through gaps;
  a non-blocking read stops in front of one. At the end of the script the read is short.
\<close>

fun gather :: "bool \<Rightarrow> nat \<Rightarrow> item list \<Rightarrow> (error + bytes) \<times> item list" where
  "gather blk 0 its = (Inr [], its)"
| "gather blk (Suc n) [] = (Inr [], [])"
| "gather blk (Suc n) (B b # its) =
     (case gather blk n its of
        (Inl e, r) \<Rightarrow> (Inl e, r)
      | (Inr bs, r) \<Rightarrow> (Inr (b # bs), r))"
| "gather blk (Suc n) (Err # its) = (Inl OSError, its)"
| "gather blk (Suc n) (Gap # its) =
     (if blk then gather blk (Suc n) its else (Inr [], Gap # its))"

text \<open>
  \<^verbatim>\<open>sock.read(n)\<close> of a MicroPython stream: \<^verbatim>\<open>None\<close> when a non-blocking socket has
  no data, otherwise the bytes read (fewer than \<open>n\<close>, possibly none, when the peer
  has closed); \<open>n = -1\<close> reads to the end of the stream, a size below \<open>-1\<close> is a
  request for a buffer that cannot be allocated. A socket that is not connected raises
  \<^verbatim>\<open>OSError\<close>.
\<close>

definition sock_read :: "int \<Rightarrow> socket \<Rightarrow> (error + bytes option) \<times> socket" where
  "sock_read n s =
     (if status s \<noteq> Connected then (Inl OSError, s)
      else if n < -1 then (Inl MemoryError, s)
      else if \<not> blocking s \<and> n \<noteq> 0 \<and> take 1 (rx s) = [Gap]
        then (Inr None, s\<lparr>rx := tl (rx s)\<rparr>)
      else (case gather (blocking s) (if n = -1 then length (rx s) else nat n) (rx s) of
              (Inl e, r) \<Rightarrow> (Inl e, s\<lparr>rx := r\<rparr>)
            | (Inr bs, r) \<Rightarrow> (Inr (Some bs), s\<lparr>rx := r, rd := rd s @ bs\<rparr>)))"

definition sock_write :: "bytes \<Rightarrow> socket \<Rightarrow> (error + unit) \<times> socket" where
  "sock_write bs s =
     (if status s \<noteq> Connected then (Inl OSError, s)
      else (case wfail s of
              [] \<Rightarrow> (Inr (), s\<lparr>tx := tx s @ bs\<rparr>)
            | True # w \<Rightarrow> (Inl OSError, s\<lparr>wfail := w\<rparr>)
            | False # w \<Rightarrow> (Inr (), s\<lparr>wfail := w, tx := tx s @ bs\<rparr>)))"

definition sock_close :: "socket \<Rightarrow> socket" where
  "sock_close s = s\<lparr>status := Closed\<rparr>"



section \<open>The client object\<close>

text \<open>
  The fields of \<^verbatim>\<open>MQTTClient\<close> as \<^verbatim>\<open>__init__\<close> sets them (\<open>debug\<close> is the field the
  subclass of \<^verbatim>\<open>umqttrobust.py\<close> adds), followed by the part of the world the methods
  act on:
  \<^item> \<open>cb\<close> tells whether a callback is set; a call of the callback appends its two
    arguments to \<open>delivered\<close> and returns;
  \<^item> \<open>net\<close> scripts the outcome of the coming connection attempts; once it is
    exhausted the network stays down;
  \<^item> \<open>slept\<close> logs the arguments of \<^verbatim>\<open>time.sleep\<close>, \<open>printed\<close> the lines of
    \<^verbatim>\<open>log\<close>.
\<close>

datatype conn =
    NoSocket
  | Refused
  | Accepted "item list" "bool list"

record client =
  client_id :: bytes
  sock :: "socket option"
  server :: string
  port :: nat
  ssl :: bool
  pid :: int
  cb :: bool
  user :: "bytes option"
  pswd :: "bytes option"
  keepalive :: nat
  lw_topic :: "bytes option"
  lw_msg :: "bytes option"
  lw_qos :: nat
  lw_retain :: bool
  debug :: bool
  delivered :: "(bytes option \<times> bytes option) list"
  net :: "conn list"
  slept :: "nat list"
  printed :: "(bool \<times> error) list"

type_synonym 'a act = "client \<Rightarrow> (error + 'a) \<times> client"

definition ret :: "'a \<Rightarrow> 'a act" where
  "ret x c = (Inr x, c)"

definition raise :: "error \<Rightarrow> 'a act" where
  "raise e c = (Inl e, c)"

definition bnd :: "'a act \<Rightarrow> ('a \<Rightarrow> 'b act) \<Rightarrow> 'b act" where
  "bnd m f c = (case m c of (Inl e, c') \<Rightarrow> (Inl e, c') | (Inr x, c') \<Rightarrow> f x c')"

text \<open>\<^verbatim>\<open>self.sock\<close> is \<^verbatim>\<open>None\<close> until \<^verbatim>\<open>connect\<close> is called: a method call on it fails.\<close>

definition with_sock :: "(socket \<Rightarrow> (error + 'a) \<times> socket) \<Rightarrow> 'a act" where
  "with_sock f c =
     (case sock c of
        None \<Rightarrow> (Inl AttributeError, c)
      | Some s \<Rightarrow> (case f s of (r, s') \<Rightarrow> (r, c\<lparr>sock := Some s'\<rparr>)))"

definition sread :: "int \<Rightarrow> bytes option act" where
  "sread n = with_sock (sock_read n)"

definition swrite :: "bytes \<Rightarrow> unit act" where
  "swrite bs = with_sock (sock_write bs)"

text \<open>Subscripting what a read returned: \<^verbatim>\<open>None[i]\<close> and an index past the end raise.\<close>

definition index :: "bytes option \<Rightarrow> nat \<Rightarrow> byte act" where
  "index r i =
     (case r of
        None \<Rightarrow> raise TypeError
      | Some bs \<Rightarrow> if i < length bs then ret (bs ! i) else raise IndexError)"

text \<open>
  \<^verbatim>\<open>struct.pack("!H", n)\<close>: two bytes, high byte first. MicroPython's \<^verbatim>\<open>ustruct\<close> does
  not check the range of the value; it stores the low-order bits.
\<close>

definition pack_H :: "int \<Rightarrow> bytes" where
  "pack_H n = [word_of_int (drop_bit 8 n), word_of_int n]"

definition pack_B :: "int \<Rightarrow> byte" where
  "pack_B n = word_of_int n"

section \<open>umqttsimple: the remaining-length field\<close>

text \<open>
  \<^verbatim>\<open>connect\<close> and \<^verbatim>\<open>publish\<close> encode the remaining length with the same loop, into
  a buffer \<open>pkt\<close> from index \<open>i\<close> on:
  \<^verbatim>\<open>while sz > 0x7F: pkt[i] = (sz & 0x7F) | 0x80; sz >>= 7; i += 1\<close> and then
  \<^verbatim>\<open>pkt[i] = sz\<close>. A store past the end of the buffer raises \<^verbatim>\<open>IndexError\<close>.
  The result is the buffer and the final \<open>i\<close>.
\<close>

function encode_len :: "bytes \<Rightarrow> nat \<Rightarrow> int \<Rightarrow> error + (bytes \<times> nat)" where
  "encode_len pkt i sz =
     (if sz > 0x7F then
        (if i < length pkt
         then encode_len (pkt[i := word_of_int ((sz AND 0x7F) OR 0x80)]) (i + 1) (drop_bit 7 sz)
         else Inl IndexError)
      else if i < length pkt then Inr (pkt[i := word_of_int sz], i)
      else Inl IndexError)"
  by pat_completeness auto
termination
  by (relation "measure (\<lambda>(pkt, i, sz). length pkt - i)") auto

declare encode_len.simps [simp del]

text \<open>The number of script items the socket of a client still holds.\<close>

definition pending :: "client \<Rightarrow> nat" where
  "pending c = (case sock c of None \<Rightarrow> 0 | Some s \<Rightarrow> length (rx s))"

lemma gather_length: "gather blk n its = (r, its') \<Longrightarrow> length its' \<le> length its"
proof (induction blk n its arbitrary: r its' rule: gather.induct)
  case (3 blk n b its)
  then show ?case by (fastforce split: prod.splits sum.splits)
next
  case (5 blk n its)
  then show ?case by (fastforce split: if_splits)
qed auto

lemma gather_length_strict:
  "gather blk n its = (Inr (b # bs), its') \<Longrightarrow> length its' < length its"
proof (induction blk n its arbitrary: b bs its' rule: gather.induct)
  case (3 blk n b0 its)
  then obtain r bs0 where g: "gather blk n its = (Inr bs0, r)" and "its' = r"
    by (auto split: prod.splits sum.splits)
  with gather_length [OF g] show ?case by simp
next
  case (5 blk n its)
  then show ?case by (fastforce split: if_splits)
qed auto

lemma sock_read_length: "sock_read n s = (r, s') \<Longrightarrow> length (rx s') \<le> length (rx s)"
  by (auto simp: sock_read_def split: if_splits prod.splits sum.splits dest: gather_length)

lemma sock_read_length_strict:
  "sock_read n s = (Inr (Some (b # bs)), s') \<Longrightarrow> length (rx s') < length (rx s)"
  by (auto simp: sock_read_def split: if_splits prod.splits sum.splits dest: gather_length_strict)

lemma sock_read_None_strict:
  "sock_read n s = (Inr None, s') \<Longrightarrow> length (rx s') < length (rx s)"
  by (cases "rx s") (auto simp: sock_read_def split: if_splits prod.splits sum.splits)

lemma read_pending: "sread n c = (r, c') \<Longrightarrow> pending c' \<le> pending c"
  by (auto simp: sread_def with_sock_def pending_def split: option.splits prod.splits
      dest: sock_read_length)

lemma read_pending_strict:
  "sread n c = (Inr (Some (b # bs)), c') \<Longrightarrow> pending c' < pending c"
  by (auto simp: sread_def with_sock_def pending_def split: option.splits prod.splits
      dest: sock_read_length_strict)

lemma read_pending_None: "sread n c = (Inr None, c') \<Longrightarrow> pending c' < pending c"
  by (auto simp: sread_def with_sock_def pending_def split: option.splits prod.splits
      dest: sock_read_None_strict)

lemma index_Inr: "index r i c = (Inr b, c') \<Longrightarrow> c' = c \<and> (\<exists>bs. r = Some bs \<and> i < length bs \<and> b = bs ! i)"
  by (auto simp: index_def ret_def raise_def split: option.splits if_splits)

text \<open>
  \<^verbatim>\<open>_recv_len\<close>: \<^verbatim>\<open>n = 0; sh = 0\<close>, then the loop
  \<^verbatim>\<open>b = self.sock.read(1)[0]; n |= (b & 0x7F) << sh; if not b & 0x80: return n; sh += 7\<close>.
\<close>

function recv_len_loop :: "int \<Rightarrow> nat \<Rightarrow> int act" where
  "recv_len_loop n sh c =
     (case sread 1 c of
        (Inl e, c') \<Rightarrow> (Inl e, c')
      | (Inr r, c') \<Rightarrow>
          (case index r 0 c' of
             (Inl e, c'') \<Rightarrow> (Inl e, c'')
           | (Inr b, c'') \<Rightarrow>
               (let n' = n OR push_bit sh (uint b AND 0x7F)
                in if b AND 0x80 = 0 then (Inr n', c'')
                   else recv_len_loop n' (sh + 7) c'')))"
  by pat_completeness auto
termination
proof (relation "measure (\<lambda>(n, sh, c). pending c)")
  show "wf (measure (\<lambda>(n, sh, c). pending c))" by simp
next
  fix n :: int and sh :: nat and c x1 c' r x2 c'' b n'
  assume rd: "(x1, c') = sread 1 c" and "x1 = Inr r"
    and ix: "(x2, c'') = index r 0 c'" and "x2 = Inr b"
  from ix \<open>x2 = Inr b\<close> have "index r 0 c' = (Inr b, c'')" by simp
  from index_Inr [OF this] obtain bs where c'': "c'' = c'" and r: "r = Some bs" "0 < length bs"
    by auto
  then obtain b0 bs0 where "bs = b0 # bs0" by (cases bs) auto
  with rd \<open>x1 = Inr r\<close> r have "sread 1 c = (Inr (Some (b0 # bs0)), c')" by simp
  from read_pending_strict [OF this] c''
  show "((n', sh + 7, c''), n, sh, c) \<in> measure (\<lambda>(n, sh, c). pending c)" by simp
qed

declare recv_len_loop.simps [simp del]

definition recv_len :: "int act" where
  "recv_len = recv_len_loop 0 0"

subsection \<open>Helper facts on the encoding\<close>

text \<open>The bytes the encoding loop produces for \<open>sz\<close>, as a list.\<close>

function varint :: "int \<Rightarrow> bytes" where
  "varint sz =
     (if sz > 0x7F then word_of_int ((sz AND 0x7F) OR 0x80) # varint (drop_bit 7 sz)
      else [word_of_int sz])"
  by pat_completeness auto
termination
  by (relation "measure nat") (auto simp: drop_bit_eq_div)

declare varint.simps [simp del]

lemma mask7_int: "(0x7F::int) = mask 7"
  by (simp add: mask_eq_exp_minus_1)

lemma bit128_int: "bit (128::int) n \<longleftrightarrow> n = 7"
  using bit_exp_iff [of 7 n, where 'a = int] by simp

lemma bit128_byte: "bit (128::byte) n \<longleftrightarrow> n = 7"
  using bit_exp_iff [of 7 n, where 'a = byte] by auto

lemma last_byte_top_clear:
  fixes x :: int
  assumes "0 \<le> x" "x \<le> 0x7F"
  shows "(word_of_int x :: byte) AND 0x80 = 0"
proof -
  have "take_bit 7 x = x" using assms by (simp add: take_bit_int_eq_self)
  then have "\<not> bit x 7" by (metis bit_take_bit_iff less_irrefl)
  then show ?thesis
    by (auto intro!: bit_eqI simp: bit_simps bit128_byte bit128_int)
qed

lemma last_byte_low7:
  fixes x :: int
  assumes "0 \<le> x" "x \<le> 0x7F"
  shows "uint (word_of_int x :: byte) AND 0x7F = x"
proof -
  have "take_bit 7 x = x" using assms by (simp add: take_bit_int_eq_self)
  moreover have "uint (word_of_int x :: byte) AND 0x7F = take_bit 7 x"
    unfolding mask7_int by (auto intro!: bit_eqI simp: bit_simps)
  ultimately show ?thesis by simp
qed

lemma cont_byte_top_set:
  fixes x :: int
  shows "(word_of_int ((x AND 0x7F) OR 0x80) :: byte) AND 0x80 \<noteq> 0"
proof -
  have "bit ((word_of_int ((x AND 0x7F) OR 0x80) :: byte) AND 0x80) 7"
    by (simp add: bit_simps bit128_int bit128_byte)
  then show ?thesis by auto
qed

lemma cont_byte_low7:
  fixes x :: int
  shows "uint (word_of_int ((x AND 0x7F) OR 0x80) :: byte) AND 0x7F = x AND 0x7F"
  unfolding mask7_int by (auto intro!: bit_eqI simp: bit_simps bit128_int)

lemma accumulate7:
  "(acc OR push_bit sh (x AND 0x7F)) OR push_bit (sh + 7) (drop_bit 7 x) =
   acc OR push_bit sh (x::int)"
proof (rule bit_eqI)
  fix n
  show "bit ((acc OR push_bit sh (x AND 0x7F)) OR push_bit (sh + 7) (drop_bit 7 x)) n =
        bit (acc OR push_bit sh x) n"
  proof (cases "sh + 7 \<le> n")
    case True
    then have "7 + (n - (sh + 7)) = n - sh" "\<not> n - sh < 7" "sh \<le> n" by arith+
    with True show ?thesis unfolding mask7_int by (simp add: bit_simps)
  next
    case False
    then have "sh \<le> n \<Longrightarrow> n - sh < 7" by arith
    with False show ?thesis unfolding mask7_int by (auto simp: bit_simps)
  qed
qed

lemma varint_length: "0 \<le> sz \<Longrightarrow> sz < 2097152 \<Longrightarrow> length (varint sz) \<le> 3"
proof -
  assume a: "0 \<le> sz" "sz < 2097152"
  have 1: "drop_bit 7 sz < 16384" using a by (simp add: drop_bit_eq_div)
  have 2: "drop_bit 14 sz < 128" using a by (simp add: drop_bit_eq_div)
  show ?thesis
    using 1 2
    by (simp add: varint.simps [of sz] varint.simps [of "drop_bit 7 sz"]
        varint.simps [of "drop_bit 14 sz"])
qed

lemma varint_nonempty: "varint sz \<noteq> []"
  by (simp add: varint.simps [of sz])

lemma encode_len_varint:
  "i + length (varint sz) \<le> length pkt \<Longrightarrow>
   encode_len pkt i sz =
     Inr (take i pkt @ varint sz @ drop (i + length (varint sz)) pkt, i + length (varint sz) - 1)"
proof (induction sz arbitrary: pkt i rule: varint.induct)
  case (1 sz)
  show ?case
  proof (cases "sz > 0x7F")
    case True
    let ?b = "word_of_int ((sz AND 0x7F) OR 0x80) :: byte"
    from True have v: "varint sz = ?b # varint (drop_bit 7 sz)"
      by (simp add: varint.simps [of sz])
    with "1.prems" have len: "i < length pkt"
      "(i + 1) + length (varint (drop_bit 7 sz)) \<le> length (pkt[i := ?b])" by simp_all
    from "1.IH" [OF True len(2)] True len(1) v
    show ?thesis
      by (simp add: encode_len.simps [of pkt i sz] take_Suc_conv_app_nth)
  next
    case False
    then have v: "varint sz = [word_of_int sz]" by (simp add: varint.simps [of sz])
    with "1.prems" have "i < length pkt" by simp
    with False v show ?thesis
      by (simp add: encode_len.simps [of pkt i sz] upd_conv_take_nth_drop)
  qed
qed

lemma sread_byte:
  assumes "sock c = Some s" "status s = Connected" "rx s = B b # its"
  shows "sread 1 c = (Inr (Some [b]), c\<lparr>sock := Some (s\<lparr>rx := its, rd := rd s @ [b]\<rparr>)\<rparr>)"
  using assms by (simp add: sread_def with_sock_def sock_read_def)

lemma recv_len_loop_varint:
  "sock c = Some s \<Longrightarrow> status s = Connected \<Longrightarrow> rx s = map B (varint sz) @ rest \<Longrightarrow>
   0 \<le> sz \<Longrightarrow>
   recv_len_loop acc sh c =
     (Inr (acc OR push_bit sh sz), c\<lparr>sock := Some (s\<lparr>rx := rest, rd := rd s @ varint sz\<rparr>)\<rparr>)"
proof (induction sz arbitrary: acc sh c s rule: varint.induct)
  case (1 sz)
  show ?case
  proof (cases "sz > 0x7F")
    case True
    let ?b = "word_of_int ((sz AND 0x7F) OR 0x80) :: byte"
    let ?s' = "s\<lparr>rx := map B (varint (drop_bit 7 sz)) @ rest, rd := rd s @ [?b]\<rparr>"
    let ?c' = "c\<lparr>sock := Some ?s'\<rparr>"
    from True have v: "varint sz = ?b # varint (drop_bit 7 sz)"
      by (simp add: varint.simps [of sz])
    with "1.prems" have rx: "rx s = B ?b # (map B (varint (drop_bit 7 sz)) @ rest)" by simp
    have rd: "sread 1 c = (Inr (Some [?b]), ?c')"
      by (rule sread_byte [OF "1.prems"(1,2) rx])
    have nn: "0 \<le> drop_bit 7 sz" using "1.prems" by simp
    have ih: "recv_len_loop (acc OR push_bit sh (sz AND 0x7F)) (sh + 7) ?c' =
       (Inr ((acc OR push_bit sh (sz AND 0x7F)) OR push_bit (sh + 7) (drop_bit 7 sz)),
        ?c'\<lparr>sock := Some (?s'\<lparr>rx := rest, rd := rd ?s' @ varint (drop_bit 7 sz)\<rparr>)\<rparr>)"
      using "1.prems"(2) nn by (intro "1.IH" [OF True]) simp_all
    have step: "recv_len_loop acc sh c =
        recv_len_loop (acc OR push_bit sh (sz AND 0x7F)) (sh + 7) ?c'"
      by (simp add: recv_len_loop.simps [of acc sh c] rd index_def ret_def cont_byte_top_set
          cont_byte_low7)
    show ?thesis
      unfolding step ih accumulate7 by (simp add: v)
  next
    case False
    let ?b = "word_of_int sz :: byte"
    from False have v: "varint sz = [?b]" by (simp add: varint.simps [of sz])
    with "1.prems" have rx: "rx s = B ?b # rest" by simp
    have rd: "sread 1 c = (Inr (Some [?b]), c\<lparr>sock := Some (s\<lparr>rx := rest, rd := rd s @ [?b]\<rparr>)\<rparr>)"
      by (rule sread_byte [OF "1.prems"(1,2) rx])
    from False "1.prems" have "(?b AND 0x80) = 0" "uint ?b AND 0x7F = sz"
      by (simp_all add: last_byte_top_clear last_byte_low7)
    then show ?thesis
      by (simp add: recv_len_loop.simps [of acc sh c] rd index_def ret_def v)
  qed
qed

section \<open>umqttsimple: the client\<close>

text \<open>
  \<^verbatim>\<open>__init__\<close>. The world the new client lives in (the connections to come) is the last
  argument.
\<close>

definition init :: "bytes \<Rightarrow> string \<Rightarrow> nat \<Rightarrow> bytes option \<Rightarrow> bytes option \<Rightarrow> nat \<Rightarrow> bool \<Rightarrow>
    conn list \<Rightarrow> client" where
  "init cid srv prt usr password ka use_ssl world =
     \<lparr>client_id = cid, sock = None, server = srv,
      port = (if prt = 0 then (if use_ssl then 8883 else 1883) else prt),
      ssl = use_ssl, pid = 0, cb = False, user = usr, pswd = password, keepalive = ka,
      lw_topic = None, lw_msg = None, lw_qos = 0, lw_retain = False, debug = False,
      delivered = [], net = world, slept = [], printed = []\<rparr>"

text \<open>\<^verbatim>\<open>_send_str\<close>: the length as two bytes, then the string.\<close>

definition send_str :: "bytes \<Rightarrow> unit act" where
  "send_str s = bnd (swrite (pack_H (int (length s)))) (\<lambda>_. swrite s)"

definition set_callback :: "client \<Rightarrow> client" where
  "set_callback c = c\<lparr>cb := True\<rparr>"

text \<open>\<^verbatim>\<open>set_last_will\<close>: \<^verbatim>\<open>assert 0 <= qos <= 2\<close> and \<^verbatim>\<open>assert topic\<close> come first.\<close>

definition set_last_will :: "bytes \<Rightarrow> bytes \<Rightarrow> bool \<Rightarrow> nat \<Rightarrow> unit act" where
  "set_last_will topic msg retain qos c =
     (if \<not> qos \<le> 2 then (Inl AssertionError, c)
      else if topic = [] then (Inl AssertionError, c)
      else (Inr (), c\<lparr>lw_topic := Some topic, lw_msg := Some msg, lw_qos := qos,
                        lw_retain := retain\<rparr>))"

text \<open>A call of \<^verbatim>\<open>self.cb\<close>; calling \<^verbatim>\<open>None\<close> raises \<^verbatim>\<open>TypeError\<close>.\<close>

definition call_cb :: "bytes option \<Rightarrow> bytes option \<Rightarrow> unit act" where
  "call_cb topic msg c =
     (if cb c then (Inr (), c\<lparr>delivered := delivered c @ [(topic, msg)]\<rparr>)
      else (Inl TypeError, c))"

text \<open>\<^verbatim>\<open>self.pid += 1\<close>, giving the new value.\<close>

definition next_pid :: "int act" where
  "next_pid c = (Inr (pid c + 1), c\<lparr>pid := pid c + 1\<rparr>)"

text \<open>Two bytes read from the socket as a big-endian number: \<^verbatim>\<open>r[0] << 8 | r[1]\<close>.\<close>

definition be16 :: "bytes option \<Rightarrow> int act" where
  "be16 r = bnd (index r 0) (\<lambda>h. bnd (index r 1) (\<lambda>l. ret (push_bit 8 (uint h) OR uint l)))"

text \<open>
  \<^verbatim>\<open>wait_msg\<close>, in the order of the source: one byte is read; \<^verbatim>\<open>None\<close> gives
  \<^verbatim>\<open>None\<close>, an empty read raises \<^verbatim>\<open>OSError(-1)\<close>, PINGRESP is checked and gives
  \<^verbatim>\<open>None\<close>, an opcode that is not a PUBLISH is returned as it is, and a PUBLISH is read
  whole, handed to the callback and, at QoS 1, acknowledged.
\<close>

definition simple_wait_msg :: "byte option act" where
  "simple_wait_msg =
     bnd (sread 1) (\<lambda>res.
       case res of
         None \<Rightarrow> ret None
       | Some bs \<Rightarrow>
           if bs = [] then raise OSError
           else if bs = [0xD0] then
             bnd (sread 1) (\<lambda>r. bnd (index r 0) (\<lambda>sz.
               if sz = 0 then ret None else raise AssertionError))
           else
             (let op = hd bs in
              if op AND 0xF0 \<noteq> 0x30 then ret (Some op)
              else
                bnd recv_len (\<lambda>sz.
                bnd (sread 2) (\<lambda>tl.
                bnd (be16 tl) (\<lambda>topic_len.
                bnd (sread topic_len) (\<lambda>topic.
                bnd (if op AND 6 \<noteq> 0
                     then bnd (sread 2) (\<lambda>p. bnd (be16 p) (\<lambda>p.
                            ret (p, sz - (topic_len + 2) - 2)))
                     else ret (0, sz - (topic_len + 2))) (\<lambda>(pid, sz).
                bnd (sread sz) (\<lambda>msg.
                bnd (call_cb topic msg) (\<lambda>_.
                  if op AND 6 = 2 then
                    bnd (swrite ([0x40, 0x02] @ pack_H pid)) (\<lambda>_. ret (Some op))
                  else if op AND 6 = 4 then raise AssertionError
                  else ret (Some op))))))))))"

subsection \<open>Relations that every step of the client obeys\<close>

text \<open>
  \<open>obeys R m\<close>: whatever \<open>m\<close> returns, the state before and the state after are
  related by \<open>R\<close>. A relation is \<open>stable\<close> when it is reflexive and transitive and
  the three primitive effects of the client (a read, a write, a call of the callback)
  respect it; every method built from them then obeys it too.
\<close>

definition obeys :: "(client \<Rightarrow> client \<Rightarrow> bool) \<Rightarrow> 'a act \<Rightarrow> bool" where
  "obeys R m \<longleftrightarrow> (\<forall>c r c'. m c = (r, c') \<longrightarrow> R c c')"

definition stable :: "(client \<Rightarrow> client \<Rightarrow> bool) \<Rightarrow> bool" where
  "stable R \<longleftrightarrow>
     (\<forall>c. R c c) \<and> (\<forall>a b c. R a b \<longrightarrow> R b c \<longrightarrow> R a c) \<and>
     (\<forall>n. obeys R (sread n)) \<and> (\<forall>bs. obeys R (swrite bs)) \<and>
     (\<forall>t m. obeys R (call_cb t m))"

lemma obeysD: "obeys R m \<Longrightarrow> m c = (r, c') \<Longrightarrow> R c c'"
  by (auto simp: obeys_def)

lemma stable_refl: "stable R \<Longrightarrow> R c c"
  by (simp add: stable_def)

lemma stable_trans: "stable R \<Longrightarrow> R a b \<Longrightarrow> R b c \<Longrightarrow> R a c"
  unfolding stable_def by blast

lemma obeys_ret: "stable R \<Longrightarrow> obeys R (ret x)"
  by (simp add: obeys_def ret_def stable_refl)

lemma obeys_raise: "stable R \<Longrightarrow> obeys R (raise e)"
  by (simp add: obeys_def raise_def stable_refl)

lemma bnd_cases:
  assumes "bnd m f c = (r, c')"
  obtains e where "m c = (Inl e, c')" "r = Inl e"
    | x c1 where "m c = (Inr x, c1)" "f x c1 = (r, c')"
  using assms unfolding bnd_def by (auto split: prod.splits sum.splits)

lemma obeys_bnd:
  assumes "stable R" "obeys R m" "\<And>x. obeys R (f x)"
  shows "obeys R (bnd m f)"
  unfolding obeys_def
proof (intro allI impI)
  fix c r c'
  assume "bnd m f c = (r, c')"
  then show "R c c'"
  proof (cases rule: bnd_cases)
    case (1 e)
    with assms(2) show ?thesis by (auto dest: obeysD)
  next
    case (2 x c1)
    with assms have "R c c1" "R c1 c'" by (auto dest: obeysD)
    with assms(1) show ?thesis by (rule stable_trans)
  qed
qed

lemma obeys_sread: "stable R \<Longrightarrow> obeys R (sread n)"
  by (simp add: stable_def)

lemma obeys_swrite: "stable R \<Longrightarrow> obeys R (swrite bs)"
  by (simp add: stable_def)

lemma obeys_call_cb: "stable R \<Longrightarrow> obeys R (call_cb t m)"
  by (simp add: stable_def)

lemma obeys_index: "stable R \<Longrightarrow> obeys R (index r i)"
  by (auto simp: index_def intro: obeys_ret obeys_raise split: option.splits)

lemma obeys_be16: "stable R \<Longrightarrow> obeys R (be16 r)"
  unfolding be16_def by (intro obeys_bnd obeys_index obeys_ret)

lemma obeys_send_str: "stable R \<Longrightarrow> obeys R (send_str s)"
  unfolding send_str_def by (intro obeys_bnd obeys_swrite)

lemma obeys_if: "obeys R a \<Longrightarrow> obeys R b \<Longrightarrow> obeys R (if P then a else b)"
  by simp

lemma obeys_case_prod:
  "(\<And>a b. obeys R (f a b)) \<Longrightarrow> obeys R (case p of (a, b) \<Rightarrow> f a b)"
  by (cases p) simp

lemma obeys_recv_len_loop:
  assumes st: "stable R"
  shows "obeys R (recv_len_loop n sh)"
proof -
  have "recv_len_loop n sh c = (r, c') \<Longrightarrow> R c c'" for c r c'
  proof (induction n sh c arbitrary: r c' rule: recv_len_loop.induct)
    case (1 n sh c)
    obtain r1 c1 where rd: "sread 1 c = (r1, c1)" by (cases "sread 1 c")
    from obeysD [OF obeys_sread [OF st] rd] have le1: "R c c1" .
    show ?case
    proof (cases r1)
      case (Inl e)
      with rd "1.prems" le1 show ?thesis
        by (simp add: recv_len_loop.simps [of n sh c])
    next
      case (Inr v)
      obtain r2 c2 where ix: "index v 0 c1 = (r2, c2)" by (cases "index v 0 c1")
      from obeysD [OF obeys_index [OF st] ix] have "R c1 c2" .
      with le1 have le2: "R c c2" by (rule stable_trans [OF st])
      show ?thesis
      proof (cases r2)
        case (Inl e)
        with rd Inr ix "1.prems" le2 show ?thesis
          by (simp add: recv_len_loop.simps [of n sh c])
      next
        case b: (Inr b)
        show ?thesis
        proof (cases "b AND 0x80 = 0")
          case True
          with rd Inr ix b "1.prems" le2 show ?thesis
            by (simp add: recv_len_loop.simps [of n sh c] Let_def)
        next
          case False
          with rd Inr ix b "1.prems"
          have "recv_len_loop (n OR push_bit sh (uint b AND 0x7F)) (sh + 7) c2 = (r, c')"
            by (simp add: recv_len_loop.simps [of n sh c] Let_def)
          from "1.IH" [OF rd [symmetric] Inr ix [symmetric] b refl False this]
          have "R c2 c'" .
          with le2 show ?thesis by (rule stable_trans [OF st])
        qed
      qed
    qed
  qed
  then show ?thesis by (auto simp: obeys_def)
qed

lemma obeys_recv_len: "stable R \<Longrightarrow> obeys R recv_len"
  unfolding recv_len_def by (rule obeys_recv_len_loop)

lemmas obeys_intros =
  obeys_bnd obeys_ret obeys_raise obeys_sread obeys_swrite obeys_index
  obeys_be16 obeys_call_cb obeys_send_str obeys_recv_len obeys_if
  obeys_case_prod

text \<open>
  \<^verbatim>\<open>wait_msg\<close> after its first read, when that read gave the bytes \<open>bs\<close> (not empty).
\<close>

definition wait_msg_rest :: "bytes \<Rightarrow> byte option act" where
  "wait_msg_rest bs =
     (if bs = [0xD0] then
        bnd (sread 1) (\<lambda>r. bnd (index r 0) (\<lambda>sz.
          if sz = 0 then ret None else raise AssertionError))
      else
        (let op = hd bs in
         if op AND 0xF0 \<noteq> 0x30 then ret (Some op)
         else
           bnd recv_len (\<lambda>sz.
           bnd (sread 2) (\<lambda>tl.
           bnd (be16 tl) (\<lambda>topic_len.
           bnd (sread topic_len) (\<lambda>topic.
           bnd (if op AND 6 \<noteq> 0
                then bnd (sread 2) (\<lambda>p. bnd (be16 p) (\<lambda>p.
                       ret (p, sz - (topic_len + 2) - 2)))
                else ret (0, sz - (topic_len + 2))) (\<lambda>(pid, sz).
           bnd (sread sz) (\<lambda>msg.
           bnd (call_cb topic msg) (\<lambda>_.
             if op AND 6 = 2 then
               bnd (swrite ([0x40, 0x02] @ pack_H pid)) (\<lambda>_. ret (Some op))
             else if op AND 6 = 4 then raise AssertionError
             else ret (Some op))))))))))"

lemma simple_wait_msg_unfold:
  "simple_wait_msg =
     bnd (sread 1) (\<lambda>res.
       case res of
         None \<Rightarrow> ret None
       | Some bs \<Rightarrow> if bs = [] then raise OSError else wait_msg_rest bs)"
  unfolding simple_wait_msg_def wait_msg_rest_def by (rule refl)

lemma obeys_wait_msg_rest: "stable R \<Longrightarrow> obeys R (wait_msg_rest bs)"
  unfolding wait_msg_rest_def Let_def by (intro obeys_intros)

lemma obeys_simple_wait_msg: "stable R \<Longrightarrow> obeys R simple_wait_msg"
  unfolding simple_wait_msg_unfold
  by (intro obeys_bnd obeys_sread)
     (auto split: option.splits intro: obeys_ret obeys_raise obeys_wait_msg_rest)

text \<open>No step makes the script of the socket longer.\<close>

lemma with_sock_cases:
  assumes "with_sock f c = (r, c')"
  obtains "sock c = None" "r = Inl AttributeError" "c' = c"
    | s s' where "sock c = Some s" "f s = (r, s')" "c' = c\<lparr>sock := Some s'\<rparr>"
  using assms unfolding with_sock_def by (auto split: option.splits prod.splits)

lemma sock_write_rx: "sock_write bs s = (r, s') \<Longrightarrow> rx s' = rx s \<and> rd s' = rd s"
  by (auto simp: sock_write_def split: if_splits list.splits bool.splits)

definition no_longer :: "client \<Rightarrow> client \<Rightarrow> bool" where
  "no_longer c c' \<longleftrightarrow> pending c' \<le> pending c"

lemma stable_no_longer: "stable no_longer"
  unfolding stable_def
proof (intro conjI allI impI)
  fix n show "obeys no_longer (sread n)"
    unfolding obeys_def no_longer_def using read_pending by blast
next
  fix bs show "obeys no_longer (swrite bs)"
    unfolding obeys_def no_longer_def swrite_def
    by (auto elim!: with_sock_cases simp: pending_def dest: sock_write_rx)
next
  fix t m show "obeys no_longer (call_cb t m)"
    by (auto simp: obeys_def no_longer_def call_cb_def pending_def split: if_splits)
qed (auto simp: no_longer_def)

lemma simple_wait_msg_pending:
  assumes "simple_wait_msg c = (Inr op, c')"
  shows "pending c' < pending c"
  using assms unfolding simple_wait_msg_unfold
proof (cases rule: bnd_cases)
  case (2 res c1)
  show ?thesis
  proof (cases res)
    case None
    with 2 have "c' = c1" by (simp add: ret_def)
    with read_pending_None 2 None show ?thesis by simp
  next
    case (Some bs)
    show ?thesis
    proof (cases bs)
      case Nil
      with 2 Some show ?thesis by (simp add: raise_def)
    next
      case (Cons b bs')
      with 2 Some have lt: "pending c1 < pending c"
        using read_pending_strict by simp
      from 2 Some Cons have "wait_msg_rest bs c1 = (Inr op, c')" by simp
      from obeysD [OF obeys_wait_msg_rest [OF stable_no_longer] this]
      have "pending c' \<le> pending c1" by (simp add: no_longer_def)
      with lt show ?thesis by simp
    qed
  qed
qed simp

subsection \<open>publish\<close>

text \<open>
  The loop at the end of \<^verbatim>\<open>publish\<close> for QoS 1:
  \<^verbatim>\<open>while 1: op = self.wait_msg(); if op == 0x40: sz = self.sock.read(1);
  assert sz == b"\x02"; rcv_pid = self.sock.read(2); rcv_pid = rcv_pid[0] << 8 | rcv_pid[1];
  if pid == rcv_pid: return\<close>.
  Each round consumes an item of the socket's script or raises.
\<close>

function publish_wait :: "int \<Rightarrow> unit act" where
  "publish_wait p c =
     (case simple_wait_msg c of
        (Inl e, c1) \<Rightarrow> (Inl e, c1)
      | (Inr op, c1) \<Rightarrow>
          if op = Some 0x40 then
            (case sread 1 c1 of
               (Inl e, c2) \<Rightarrow> (Inl e, c2)
             | (Inr sz, c2) \<Rightarrow>
                 if sz \<noteq> Some [0x02] then (Inl AssertionError, c2)
                 else
                   (case bnd (sread 2) be16 c2 of
                      (Inl e, c3) \<Rightarrow> (Inl e, c3)
                    | (Inr rcv_pid, c3) \<Rightarrow>
                        if p = rcv_pid then (Inr (), c3) else publish_wait p c3))
          else publish_wait p c1)"
  by pat_completeness auto
termination
proof (relation "measure (\<lambda>(p, c). pending c)")
  show "wf (measure (\<lambda>(p, c). pending c))" by simp
next
  fix p :: int and c x1 c1 op
  assume "(x1, c1) = simple_wait_msg c" "x1 = Inr op"
  then have "simple_wait_msg c = (Inr op, c1)" by simp
  from simple_wait_msg_pending [OF this]
  show "((p, c1), p, c) \<in> measure (\<lambda>(p, c). pending c)" by simp
next
  fix p :: int and c x1 c1 op x2 c2 sz x3 c3 rcv_pid
  assume "(x1, c1) = simple_wait_msg c" "x1 = Inr op"
    and r1: "(x2, c2) = sread 1 c1"
    and r2: "(x3, c3) = bnd (sread 2) be16 c2"
  then have "simple_wait_msg c = (Inr op, c1)" by simp
  from simple_wait_msg_pending [OF this] have "pending c1 < pending c" .
  moreover from r1 have "pending c2 \<le> pending c1"
    using read_pending [of 1 c1 x2 c2] by simp
  moreover have "obeys no_longer (bnd (sread 2) be16)"
    by (intro obeys_intros stable_no_longer)
  with r2 have "pending c3 \<le> pending c2"
    using obeysD [of no_longer "bnd (sread 2) be16" c2 x3 c3] by (simp add: no_longer_def)
  ultimately show "((p, c3), p, c) \<in> measure (\<lambda>(p, c). pending c)" by simp
qed

declare publish_wait.simps [simp del]

text \<open>
  \<^verbatim>\<open>publish\<close>. \<^verbatim>\<open>pkt[0] |= qos << 1 | retain\<close> stores a byte; the size is checked by
  \<^verbatim>\<open>assert sz < 2097152\<close>; header, topic, packet identifier (for \<open>qos > 0\<close>) and
  message are written in this order; only then does the code look at \<open>qos\<close> again: the
  wait for PUBACK at 1, \<^verbatim>\<open>assert 0\<close> at 2.
\<close>

definition simple_publish :: "bytes \<Rightarrow> bytes \<Rightarrow> bool \<Rightarrow> nat \<Rightarrow> unit act" where
  "simple_publish topic msg retain qos =
     (let pkt = [0x30 OR word_of_int (push_bit 1 (int qos) OR (if retain then 1 else 0)),
                 0, 0, 0];
          sz = 2 + int (length topic) + int (length msg);
          sz = (if qos > 0 then sz + 2 else sz)
      in if \<not> sz < 2097152 then raise AssertionError
         else
           (case encode_len pkt 1 sz of
              Inl e \<Rightarrow> raise e
            | Inr (pkt, i) \<Rightarrow>
                bnd (swrite (take (i + 1) pkt)) (\<lambda>_.
                bnd (send_str topic) (\<lambda>_.
                bnd (if qos > 0
                     then bnd next_pid (\<lambda>p.
                          bnd (swrite (take 2 (pack_H p @ drop 2 pkt))) (\<lambda>_. ret p))
                     else ret 0) (\<lambda>p.
                bnd (swrite msg) (\<lambda>_.
                  if qos = 1 then publish_wait p
                  else if qos = 2 then raise AssertionError
                  else ret ()))))))"

subsection \<open>subscribe\<close>

text \<open>
  The loop at the end of \<^verbatim>\<open>subscribe\<close>:
  \<^verbatim>\<open>while 1: op = self.wait_msg(); if op == 0x90: resp = self.sock.read(4);
  assert resp[1] == pkt[2] and resp[2] == pkt[3];
  if resp[3] == 0x80: raise MQTTException(resp[3]); return\<close>.
\<close>

function subscribe_wait :: "bytes \<Rightarrow> unit act" where
  "subscribe_wait pkt c =
     (case simple_wait_msg c of
        (Inl e, c1) \<Rightarrow> (Inl e, c1)
      | (Inr op, c1) \<Rightarrow>
          if op = Some 0x90 then
            bnd (sread 4) (\<lambda>resp.
            bnd (index resp 1) (\<lambda>r1.
            bnd (if r1 = pkt ! 2 then bnd (index resp 2) (\<lambda>r2. ret (r2 = pkt ! 3))
                 else ret False) (\<lambda>ok.
              if \<not> ok then raise AssertionError
              else bnd (index resp 3) (\<lambda>r3.
                if r3 = 0x80 then raise (MQTTException r3) else ret ())))) c1
          else subscribe_wait pkt c1)"
  by pat_completeness auto
termination
proof (relation "measure (\<lambda>(pkt, c). pending c)")
  show "wf (measure (\<lambda>(pkt, c). pending c))" by simp
next
  fix pkt :: bytes and c x1 c1 op
  assume "(x1, c1) = simple_wait_msg c" "x1 = Inr op"
  then have "simple_wait_msg c = (Inr op, c1)" by simp
  from simple_wait_msg_pending [OF this]
  show "((pkt, c1), pkt, c) \<in> measure (\<lambda>(pkt, c). pending c)" by simp
qed

declare subscribe_wait.simps [simp del]

text \<open>
  \<^verbatim>\<open>subscribe\<close>. \<^verbatim>\<open>struct.pack_into("!BH", pkt, 1, 2 + 2 + len(topic) + 1, self.pid)\<close>
  fills the three bytes after the first; \<^verbatim>\<open>qos.to_bytes(1, "little")\<close> is the byte of
  \<open>qos\<close>. The code does not look at the value of \<open>qos\<close>.
\<close>

definition simple_subscribe :: "bytes \<Rightarrow> nat \<Rightarrow> unit act" where
  "simple_subscribe topic qos =
     (\<lambda>c. if \<not> cb c then raise AssertionError c
          else
            bnd next_pid (\<lambda>p.
              let pkt = [0x82, pack_B (2 + 2 + int (length topic) + 1)] @ pack_H p
              in bnd (swrite pkt) (\<lambda>_.
                 bnd (send_str topic) (\<lambda>_.
                 bnd (swrite [of_nat qos]) (\<lambda>_.
                   subscribe_wait pkt)))) c)"

subsection \<open>connect, disconnect, ping\<close>

text \<open>
  \<^verbatim>\<open>self.sock = socket.socket()\<close>, \<^verbatim>\<open>socket.getaddrinfo\<close> and \<^verbatim>\<open>self.sock.connect\<close>:
  the next entry of \<open>net\<close> decides. \<open>NoSocket\<close>: no socket can be made and
  \<^verbatim>\<open>self.sock\<close> stays as it is. \<open>Refused\<close>: the address cannot be resolved or reached;
  \<^verbatim>\<open>self.sock\<close> is the new, unconnected socket. \<open>Accepted\<close>: the new socket is connected,
  with the given scripts. TLS wrapping leaves the byte stream as it is.
\<close>

definition fresh_socket :: socket where
  "fresh_socket = \<lparr>status = Unconnected, blocking = True, rx = [], wfail = [], tx = [], rd = []\<rparr>"

definition open_socket :: "unit act" where
  "open_socket c =
     (case net c of
        [] \<Rightarrow> (Inl OSError, c\<lparr>sock := Some fresh_socket\<rparr>)
      | NoSocket # world \<Rightarrow> (Inl OSError, c\<lparr>net := world\<rparr>)
      | Refused # world \<Rightarrow> (Inl OSError, c\<lparr>net := world, sock := Some fresh_socket\<rparr>)
      | Accepted input wfs # world \<Rightarrow>
          (Inr (), c\<lparr>net := world,
                     sock := Some (fresh_socket\<lparr>status := Connected, rx := input, wfail := wfs\<rparr>)\<rparr>))"

text \<open>
  The CONNECT packet of \<^verbatim>\<open>connect\<close>: the size and the flag byte \<open>msg[6]\<close> are built up
  field by field, \<^verbatim>\<open>len(None)\<close> raises \<^verbatim>\<open>TypeError\<close>, and
  \<^verbatim>\<open>assert self.keepalive < 65536\<close> guards the two keepalive bytes. The result is the
  size and the nine bytes of \<open>msg\<close>.
\<close>

definition truthy :: "bytes option \<Rightarrow> bool" where
  "truthy s \<longleftrightarrow> (case s of None \<Rightarrow> False | Some bs \<Rightarrow> bs \<noteq> [])"

definition len_opt :: "bytes option \<Rightarrow> error + int" where
  "len_opt s = (case s of None \<Rightarrow> Inl TypeError | Some bs \<Rightarrow> Inr (int (length bs)))"

definition connect_msg :: "bool \<Rightarrow> client \<Rightarrow> error + (int \<times> bytes)" where
  "connect_msg clean_session c =
     (let sz = 10 + 2 + int (length (client_id c));
          flags = (if clean_session then 2 else 0) :: byte
      in case (if user c \<noteq> None
               then (case len_opt (user c) of
                       Inl e \<Rightarrow> Inl e
                     | Inr lu \<Rightarrow> (case len_opt (pswd c) of
                         Inl e \<Rightarrow> Inl e
                       | Inr lp \<Rightarrow> Inr (sz + (2 + lu + 2 + lp), flags OR 0xC0)))
               else Inr (sz, flags)) of
           Inl e \<Rightarrow> Inl e
         | Inr (sz, flags) \<Rightarrow>
             if keepalive c \<noteq> 0 \<and> \<not> keepalive c < 65536 then Inl AssertionError
             else
               (let ka_hi = (if keepalive c \<noteq> 0 then of_nat (drop_bit 8 (keepalive c)) else 0) :: byte;
                    ka_lo = (if keepalive c \<noteq> 0 then of_nat (keepalive c AND 0x00FF) else 0) :: byte
                in case (if truthy (lw_topic c)
                         then (case len_opt (lw_topic c) of
                                 Inl e \<Rightarrow> Inl e
                               | Inr lt \<Rightarrow> (case len_opt (lw_msg c) of
                                   Inl e \<Rightarrow> Inl e
                                 | Inr lm \<Rightarrow>
                                     Inr (sz + (2 + lt + 2 + lm),
                                          (flags OR (0x4 OR push_bit 3 (of_nat (lw_qos c AND 0x1))
                                                         OR push_bit 3 (of_nat (lw_qos c AND 0x2))))
                                          OR (if lw_retain c then push_bit 5 1 else 0))))
                         else Inr (sz, flags)) of
                     Inl e \<Rightarrow> Inl e
                   | Inr (sz, flags) \<Rightarrow>
                       Inr (sz, [0x04, 0x4D, 0x51, 0x54, 0x54, 0x04, flags, ka_hi, ka_lo])))"

text \<open>
  \<^verbatim>\<open>connect\<close>: the socket is opened, the packet is sent piece by piece (the fixed
  header with \<open>i + 2\<close> bytes of the six-byte buffer \<open>premsg\<close>, \<open>msg\<close>, the client
  identifier, the will, the credentials), and four bytes of CONNACK are read:
  \<^verbatim>\<open>assert resp[0] == 0x20 and resp[1] == 0x02\<close>, then
  \<^verbatim>\<open>if resp[3] != 0: raise MQTTException(resp[3])\<close>, then \<^verbatim>\<open>return resp[2] & 1\<close>.
\<close>

definition send_opt :: "bytes option \<Rightarrow> unit act" where
  "send_opt s = (case s of None \<Rightarrow> raise TypeError | Some bs \<Rightarrow> send_str bs)"

definition simple_connect :: "bool \<Rightarrow> byte act" where
  "simple_connect clean_session =
     bnd open_socket (\<lambda>_ c.
       (case connect_msg clean_session c of
          Inl e \<Rightarrow> raise e
        | Inr (sz, msg) \<Rightarrow>
            (case encode_len [0x10, 0, 0, 0, 0, 0] 1 sz of
               Inl e \<Rightarrow> raise e
             | Inr (premsg, i) \<Rightarrow>
                 bnd (swrite (take (i + 2) premsg)) (\<lambda>_.
                 bnd (swrite msg) (\<lambda>_.
                 bnd (send_str (client_id c)) (\<lambda>_.
                 bnd (if truthy (lw_topic c)
                      then bnd (send_opt (lw_topic c)) (\<lambda>_. send_opt (lw_msg c))
                      else ret ()) (\<lambda>_.
                 bnd (if user c \<noteq> None
                      then bnd (send_opt (user c)) (\<lambda>_. send_opt (pswd c))
                      else ret ()) (\<lambda>_.
                 bnd (sread 4) (\<lambda>resp.
                 bnd (index resp 0) (\<lambda>r0.
                 bnd (if r0 = 0x20 then bnd (index resp 1) (\<lambda>r1. ret (r1 = 0x02))
                      else ret False) (\<lambda>ok.
                   if \<not> ok then raise AssertionError
                   else
                     bnd (index resp 3) (\<lambda>r3.
                       if r3 \<noteq> 0 then raise (MQTTException r3)
                       else bnd (index resp 2) (\<lambda>r2. ret (r2 AND 1))))))))))))) c)"

text \<open>\<^verbatim>\<open>disconnect\<close>: \<^verbatim>\<open>self.sock.write(b"\xe0\0")\<close>, then \<^verbatim>\<open>self.sock.close()\<close>.\<close>

definition sclose :: "unit act" where
  "sclose = with_sock (\<lambda>s. (Inr (), sock_close s))"

definition disconnect :: "unit act" where
  "disconnect = bnd (swrite [0xE0, 0x00]) (\<lambda>_. sclose)"

text \<open>\<^verbatim>\<open>ping\<close>: \<^verbatim>\<open>self.sock.write(b"\xc0\0")\<close>.\<close>

definition ping :: "unit act" where
  "ping = swrite [0xC0, 0x00]"

text \<open>\<^verbatim>\<open>check_msg\<close> of the base class is \<^verbatim>\<open>wait_msg\<close>.\<close>

definition simple_check_msg :: "byte option act" where
  "simple_check_msg = simple_wait_msg"

section \<open>umqttrobust: the retry wrapper\<close>

text \<open>
  \<^verbatim>\<open>log\<close> prints only in debug mode; \<^verbatim>\<open>time.sleep(i)\<close> is logged in \<open>slept\<close>.
\<close>

definition log :: "bool \<Rightarrow> error \<Rightarrow> client \<Rightarrow> client" where
  "log in_reconnect e c = (if debug c then c\<lparr>printed := printed c @ [(in_reconnect, e)]\<rparr> else c)"

definition sleep :: "nat \<Rightarrow> client \<Rightarrow> client" where
  "sleep i c = c\<lparr>slept := slept c @ [i]\<rparr>"

text \<open>
  The loops of the wrapper have no bound: a call that never returns has the value
  \<open>None\<close>.

  \<^verbatim>\<open>reconnect\<close>: \<^verbatim>\<open>i = 0\<close>, then
  \<^verbatim>\<open>while True: try: return super().connect(False)
  except OSError as e: self.log(True, e); i += 1; time.sleep(i)\<close>.
\<close>

partial_function (option) reconnect_loop :: "nat \<Rightarrow> client \<Rightarrow> ((error + byte) \<times> client) option"
  where
  "reconnect_loop i c =
     (case simple_connect False c of
        (Inr v, c') \<Rightarrow> Some (Inr v, c')
      | (Inl e, c') \<Rightarrow>
          if e = OSError then reconnect_loop (i + 1) (sleep (i + 1) (log True e c'))
          else Some (Inl e, c'))"

definition reconnect :: "client \<Rightarrow> ((error + byte) \<times> client) option" where
  "reconnect = reconnect_loop 0"

text \<open>
  \<^verbatim>\<open>wait_msg\<close>:
  \<^verbatim>\<open>while True: try: return super().wait_msg()
  except OSError as e: self.log(False, e)\<close> and then \<^verbatim>\<open>self.reconnect()\<close>.
\<close>

partial_function (option) robust_wait_msg :: "client \<Rightarrow> ((error + byte option) \<times> client) option"
  where
  "robust_wait_msg c =
     (case simple_wait_msg c of
        (Inr v, c') \<Rightarrow> Some (Inr v, c')
      | (Inl e, c') \<Rightarrow>
          if e = OSError then
            (case reconnect (log False e c') of
               None \<Rightarrow> None
             | Some (Inl e', c'') \<Rightarrow> Some (Inl e', c'')
             | Some (Inr _, c'') \<Rightarrow> robust_wait_msg c'')
          else Some (Inl e, c'))"

text \<open>
  \<^verbatim>\<open>publish\<close> of the wrapper calls \<^verbatim>\<open>super().publish\<close>, the method of
  \<^verbatim>\<open>umqttsimple\<close>; but on a client of the wrapper class the call \<^verbatim>\<open>self.wait_msg()\<close>
  in its PUBACK loop is a call of the wrapper's own \<^verbatim>\<open>wait_msg\<close>. So the inherited
  \<^verbatim>\<open>publish\<close> is modelled in two parts: \<open>publish_head\<close> is the method up to and with
  \<^verbatim>\<open>self.sock.write(msg)\<close> (the value is the identifier taken, for \<open>qos > 0\<close>), the same
  steps as in \<open>simple_publish\<close>; \<open>robust_publish_wait\<close> is its loop with the wrapped
  \<^verbatim>\<open>wait_msg\<close>.
\<close>

definition publish_head :: "bytes \<Rightarrow> bytes \<Rightarrow> bool \<Rightarrow> nat \<Rightarrow> int act" where
  "publish_head topic msg retain qos =
     (let pkt = [0x30 OR word_of_int (push_bit 1 (int qos) OR (if retain then 1 else 0)),
                 0, 0, 0];
          sz = 2 + int (length topic) + int (length msg);
          sz = (if qos > 0 then sz + 2 else sz)
      in if \<not> sz < 2097152 then raise AssertionError
         else
           (case encode_len pkt 1 sz of
              Inl e \<Rightarrow> raise e
            | Inr (pkt, i) \<Rightarrow>
                bnd (swrite (take (i + 1) pkt)) (\<lambda>_.
                bnd (send_str topic) (\<lambda>_.
                bnd (if qos > 0
                     then bnd next_pid (\<lambda>p.
                          bnd (swrite (take 2 (pack_H p @ drop 2 pkt))) (\<lambda>_. ret p))
                     else ret 0) (\<lambda>p.
                bnd (swrite msg) (\<lambda>_. ret p))))))"

partial_function (option) robust_publish_wait ::
    "int \<Rightarrow> client \<Rightarrow> ((error + unit) \<times> client) option" where
  "robust_publish_wait p c =
     (case robust_wait_msg c of
        None \<Rightarrow> None
      | Some (Inl e, c1) \<Rightarrow> Some (Inl e, c1)
      | Some (Inr op, c1) \<Rightarrow>
          if op = Some 0x40 then
            (case sread 1 c1 of
               (Inl e, c2) \<Rightarrow> Some (Inl e, c2)
             | (Inr sz, c2) \<Rightarrow>
                 if sz \<noteq> Some [0x02] then Some (Inl AssertionError, c2)
                 else
                   (case bnd (sread 2) be16 c2 of
                      (Inl e, c3) \<Rightarrow> Some (Inl e, c3)
                    | (Inr rcv_pid, c3) \<Rightarrow>
                        if p = rcv_pid then Some (Inr (), c3) else robust_publish_wait p c3))
          else robust_publish_wait p c1)"

definition super_publish ::
    "bytes \<Rightarrow> bytes \<Rightarrow> bool \<Rightarrow> nat \<Rightarrow> client \<Rightarrow> ((error + unit) \<times> client) option" where
  "super_publish topic msg retain qos c =
     (case publish_head topic msg retain qos c of
        (Inl e, c1) \<Rightarrow> Some (Inl e, c1)
      | (Inr p, c1) \<Rightarrow>
          if qos = 1 then robust_publish_wait p c1
          else if qos = 2 then Some (Inl AssertionError, c1)
          else Some (Inr (), c1))"

text \<open>
  \<^verbatim>\<open>publish\<close>:
  \<^verbatim>\<open>while True: try: return super().publish(topic, msg, retain, qos)
  except OSError as e: self.log(False, e)\<close> and then \<^verbatim>\<open>self.reconnect()\<close>.
\<close>

partial_function (option) robust_publish ::
    "bytes \<Rightarrow> bytes \<Rightarrow> bool \<Rightarrow> nat \<Rightarrow> client \<Rightarrow> ((error + unit) \<times> client) option" where
  "robust_publish topic msg retain qos c =
     (case super_publish topic msg retain qos c of
        None \<Rightarrow> None
      | Some (Inr v, c') \<Rightarrow> Some (Inr v, c')
      | Some (Inl e, c') \<Rightarrow>
          if e = OSError then
            (case reconnect (log False e c') of
               None \<Rightarrow> None
             | Some (Inl e', c'') \<Rightarrow> Some (Inl e', c'')
             | Some (Inr _, c'') \<Rightarrow> robust_publish topic msg retain qos c'')
          else Some (Inl e, c'))"



declare reconnect_loop.simps [code]
declare robust_publish_wait.simps [code]
declare robust_publish.simps [code]
declare robust_wait_msg.simps [code]

section \<open>A client for the concrete runs\<close>

text \<open>Client \<^verbatim>\<open>c1\<close> of broker \<^verbatim>\<open>broker\<close>, default port, no credentials, no keepalive.\<close>

definition demo :: "conn list \<Rightarrow> client" where
  "demo world = init [0x63, 0x31] ''broker'' 0 None None 0 False world"

text \<open>A connected socket with the given script and nothing written or read yet.\<close>

definition connected :: "item list \<Rightarrow> socket" where
  "connected input = fresh_socket\<lparr>status := Connected, rx := input\<rparr>"

section \<open>Facts for the claims\<close>

subsection \<open>Single steps on a connected socket\<close>

lemma swrite_ok:
  assumes "sock c = Some s" "status s = Connected" "wfail s = []"
  shows "swrite bs c = (Inr (), c\<lparr>sock := Some (s\<lparr>tx := tx s @ bs\<rparr>)\<rparr>)"
  using assms by (simp add: swrite_def with_sock_def sock_write_def)

lemma gather_bytes: "gather blk (length bs) (map B bs @ rest) = (Inr bs, rest)"
  by (induction bs) simp_all

lemma sread_bytes:
  assumes "sock c = Some s" "status s = Connected" "rx s = map B bs @ rest" "n = int (length bs)"
  shows "sread n c = (Inr (Some bs), c\<lparr>sock := Some (s\<lparr>rx := rest, rd := rd s @ bs\<rparr>)\<rparr>)"
proof (cases bs)
  case Nil
  with assms show ?thesis by (simp add: sread_def with_sock_def sock_read_def)
next
  case (Cons b bs')
  with assms have "take 1 (rx s) \<noteq> [Gap]" by simp
  with assms gather_bytes [of "blocking s" bs rest] show ?thesis
    by (simp add: sread_def with_sock_def sock_read_def)
qed

lemma wait_msg_opcode:
  assumes "sock c = Some s" and "status s = Connected" and "rx s = B op # rest"
    and "op AND 0xF0 \<noteq> 0x30" and "op \<noteq> 0xD0"
  shows "simple_wait_msg c = (Inr (Some op), c\<lparr>sock := Some (s\<lparr>rx := rest, rd := rd s @ [op]\<rparr>)\<rparr>)"
  using assms by (simp add: simple_wait_msg_def bnd_def sread_byte ret_def)

lemma be16_pair: "be16 (Some [hi, lo]) c = (Inr (push_bit 8 (uint hi) OR uint lo), c)"
  by (simp add: be16_def bnd_def index_def ret_def)

lemma publish_wait_puback:
  assumes "sock c = Some s" and "status s = Connected"
    and "rx s = map B [0x40, 0x02, hi, lo] @ rest"
  shows "publish_wait p c =
     (if p = push_bit 8 (uint hi) OR uint lo
      then (Inr (), c\<lparr>sock := Some (s\<lparr>rx := rest, rd := rd s @ [0x40, 0x02, hi, lo]\<rparr>)\<rparr>)
      else publish_wait p (c\<lparr>sock := Some (s\<lparr>rx := rest, rd := rd s @ [0x40, 0x02, hi, lo]\<rparr>)\<rparr>))"
proof -
  let ?s1 = "s\<lparr>rx := B 0x02 # B hi # B lo # rest, rd := rd s @ [0x40]\<rparr>"
  let ?s2 = "s\<lparr>rx := B hi # B lo # rest, rd := rd s @ [0x40, 0x02]\<rparr>"
  let ?s3 = "s\<lparr>rx := rest, rd := rd s @ [0x40, 0x02, hi, lo]\<rparr>"
  have w: "simple_wait_msg c = (Inr (Some 0x40), c\<lparr>sock := Some ?s1\<rparr>)"
    using assms by (intro wait_msg_opcode [THEN trans]) simp_all
  have r1: "sread 1 (c\<lparr>sock := Some ?s1\<rparr>) = (Inr (Some [0x02]), c\<lparr>sock := Some ?s2\<rparr>)"
    using assms(2) by (subst sread_byte [where s = ?s1 and b = 2]) simp_all
  have r2: "sread 2 (c\<lparr>sock := Some ?s2\<rparr>) = (Inr (Some [hi, lo]), c\<lparr>sock := Some ?s3\<rparr>)"
    using assms(2) by (subst sread_bytes [where s = ?s2 and bs = "[hi, lo]" and rest = rest]) simp_all
  show ?thesis
    by (subst publish_wait.simps) (simp add: w r1 r2 bnd_def be16_pair)
qed

lemma subscribe_wait_suback:
  assumes "sock c = Some s" and "status s = Connected"
    and "rx s = map B [0x90, l, hi, lo, g] @ rest"
  shows "subscribe_wait pkt c =
     (if hi = pkt ! 2 \<and> lo = pkt ! 3
      then (if g = 0x80 then Inl (MQTTException g) else Inr (),
            c\<lparr>sock := Some (s\<lparr>rx := rest, rd := rd s @ [0x90, l, hi, lo, g]\<rparr>)\<rparr>)
      else (Inl AssertionError, c\<lparr>sock := Some (s\<lparr>rx := rest, rd := rd s @ [0x90, l, hi, lo, g]\<rparr>)\<rparr>))"
proof -
  let ?s1 = "s\<lparr>rx := B l # B hi # B lo # B g # rest, rd := rd s @ [0x90]\<rparr>"
  let ?s2 = "s\<lparr>rx := rest, rd := rd s @ [0x90, l, hi, lo, g]\<rparr>"
  have w: "simple_wait_msg c = (Inr (Some 0x90), c\<lparr>sock := Some ?s1\<rparr>)"
    using assms by (intro wait_msg_opcode [THEN trans]) simp_all
  have r1: "sread 4 (c\<lparr>sock := Some ?s1\<rparr>) = (Inr (Some [l, hi, lo, g]), c\<lparr>sock := Some ?s2\<rparr>)"
    using assms(2) by (subst sread_bytes [where s = ?s1 and bs = "[l, hi, lo, g]" and rest = rest]) simp_all
  show ?thesis
    by (subst subscribe_wait.simps) (simp add: w r1 bnd_def index_def ret_def raise_def)
qed


lemma encode_len_publish:
  assumes "0 \<le> sz" "sz < 2097152"
  shows "\<exists>pkt i. encode_len [h, 0, 0, 0] 1 sz = Inr (pkt, i) \<and> take (i + 1) pkt = h # varint sz"
proof -
  let ?k = "length (varint sz)"
  have k: "?k \<le> 3" "0 < ?k" using assms varint_length [of sz] varint_nonempty [of sz] by auto
  then have "encode_len [h, 0, 0, 0] 1 sz =
      Inr (take 1 [h, 0, 0, 0] @ varint sz @ drop (1 + ?k) [h, 0, 0, 0], 1 + ?k - 1)"
    by (intro encode_len_varint) simp
  moreover from k have "take (1 + ?k - 1 + 1) (take 1 [h, 0, 0, 0] @ varint sz @ drop (1 + ?k) [h, 0, 0, 0])
     = h # varint sz" by simp
  ultimately show ?thesis by blast
qed

lemma send_str_ok:
  assumes "sock c = Some s" "status s = Connected" "wfail s = []"
  shows "send_str t c = (Inr (), c\<lparr>sock := Some (s\<lparr>tx := tx s @ pack_H (int (length t)) @ t\<rparr>)\<rparr>)"
  using assms by (simp add: send_str_def bnd_def swrite_ok)

definition publish_flags :: "bool \<Rightarrow> nat \<Rightarrow> byte" where
  "publish_flags retain qos = 0x30 OR word_of_int (push_bit 1 (int qos) OR (if retain then 1 else 0))"

definition publish_size :: "bytes \<Rightarrow> bytes \<Rightarrow> nat \<Rightarrow> int" where
  "publish_size topic msg qos = 2 + int (length topic) + int (length msg) + (if qos > 0 then 2 else 0)"

lemma publish_sends:
  assumes "sock c = Some s" "status s = Connected" "wfail s = []"
    and "publish_size topic msg qos < 2097152"
  shows "\<exists>pkt i. encode_len [publish_flags retain qos, 0, 0, 0] 1 (publish_size topic msg qos) = Inr (pkt, i) \<and>
    simple_publish topic msg retain qos c =
     (if qos = 0
      then (Inr (), c\<lparr>sock := Some (s\<lparr>tx := tx s @ take (i + 1) pkt @ pack_H (int (length topic)) @ topic @ msg\<rparr>)\<rparr>)
      else (if qos = 1 then publish_wait (pid c + 1) else if qos = 2 then raise AssertionError else ret ())
        (c\<lparr>pid := pid c + 1,
           sock := Some (s\<lparr>tx := tx s @ take (i + 1) pkt @ pack_H (int (length topic)) @ topic @
                                 pack_H (pid c + 1) @ msg\<rparr>)\<rparr>))"
proof -
  have "0 \<le> publish_size topic msg qos" by (simp add: publish_size_def)
  from encode_len_publish [OF this assms(4), of "publish_flags retain qos"]
  obtain pkt i where e: "encode_len [publish_flags retain qos, 0, 0, 0] 1 (publish_size topic msg qos) = Inr (pkt, i)"
    by blast
  have sz: "(if 0 < qos then 2 + int (length topic) + int (length msg) + 2 else 2 + int (length topic) + int (length msg)) = publish_size topic msg qos"
    by (simp add: publish_size_def)
  have "simple_publish topic msg retain qos c =
     (if qos = 0
      then (Inr (), c\<lparr>sock := Some (s\<lparr>tx := tx s @ take (i + 1) pkt @ pack_H (int (length topic)) @ topic @ msg\<rparr>)\<rparr>)
      else (if qos = 1 then publish_wait (pid c + 1) else if qos = 2 then raise AssertionError else ret ())
        (c\<lparr>pid := pid c + 1,
           sock := Some (s\<lparr>tx := tx s @ take (i + 1) pkt @ pack_H (int (length topic)) @ topic @
                                 pack_H (pid c + 1) @ msg\<rparr>)\<rparr>))"
    using assms e
    by (simp add: simple_publish_def Let_def sz publish_flags_def [symmetric] raise_def bnd_def swrite_ok send_str_ok
          next_pid_def ret_def pack_H_def del: One_nat_def)
  with e show ?thesis by blast
qed


lemma subscribe_sends:
  assumes "cb c" "sock c = Some s" "status s = Connected" "wfail s = []"
  shows "simple_subscribe topic qos c =
     subscribe_wait ([0x82, pack_B (5 + int (length topic))] @ pack_H (pid c + 1))
       (c\<lparr>pid := pid c + 1,
          sock := Some (s\<lparr>tx := tx s @ [0x82, pack_B (5 + int (length topic))] @ pack_H (pid c + 1) @
                                pack_H (int (length topic)) @ topic @ [of_nat qos]\<rparr>)\<rparr>)"
  using assms
  by (simp add: simple_subscribe_def Let_def bnd_def swrite_ok send_str_ok next_pid_def)

lemma subscribe_granted:
  assumes "cb c" "sock c = Some s" "status s = Connected" "wfail s = []"
    and "rx s = map B ([0x90, l] @ pack_H (pid c + 1) @ [g]) @ rest"
  shows "simple_subscribe topic qos c =
     (if g = 0x80 then Inl (MQTTException g) else Inr (),
       c\<lparr>pid := pid c + 1,
          sock := Some (s\<lparr>tx := tx s @ [0x82, pack_B (5 + int (length topic))] @ pack_H (pid c + 1) @
                                pack_H (int (length topic)) @ topic @ [of_nat qos],
                          rx := rest, rd := rd s @ [0x90, l] @ pack_H (pid c + 1) @ [g]\<rparr>)\<rparr>)"
proof -
  let ?pkt = "[0x82, pack_B (5 + int (length topic))] @ pack_H (pid c + 1)"
  let ?s1 = "s\<lparr>tx := tx s @ ?pkt @ pack_H (int (length topic)) @ topic @ [of_nat qos]\<rparr>"
  let ?c1 = "c\<lparr>pid := pid c + 1, sock := Some ?s1\<rparr>"
  obtain hi lo where p: "pack_H (pid c + 1) = [hi, lo]" by (simp add: pack_H_def)
  show ?thesis
    by (subst subscribe_sends [OF assms(1-4)],
        subst subscribe_wait_suback [where s = ?s1 and l = l and hi = hi and lo = lo
          and g = g and rest = rest])
       (simp_all add: assms p)
qed


lemma obeys_publish_wait:
  assumes st: "stable R"
  shows "obeys R (publish_wait p)"
proof -
  have "publish_wait p c = (r, c') \<Longrightarrow> R c c'" for c r c'
  proof (induction p c arbitrary: r c' rule: publish_wait.induct)
    case (1 p c)
    obtain r1 c1 where w: "simple_wait_msg c = (r1, c1)" by (cases "simple_wait_msg c")
    from obeysD [OF obeys_simple_wait_msg [OF st] w] have R1: "R c c1" .
    show ?case
    proof (cases r1)
      case (Inl e)
      with w "1.prems" R1 show ?thesis by (simp add: publish_wait.simps [of p c])
    next
      case (Inr op)
      show ?thesis
      proof (cases "op = Some 0x40")
        case False
        with w Inr "1.prems" have "publish_wait p c1 = (r, c')"
          by (simp add: publish_wait.simps [of p c])
        from "1.IH"(2) [OF w [symmetric] Inr False this] have "R c1 c'" .
        with R1 show ?thesis by (rule stable_trans [OF st])
      next
        case True
        obtain r2 c2 where rd: "sread 1 c1 = (r2, c2)" by (cases "sread 1 c1")
        from obeysD [OF obeys_sread [OF st] rd] R1 have R2: "R c c2"
          by (rule stable_trans [OF st, rotated])
        show ?thesis
        proof (cases r2)
          case (Inl e)
          with w Inr True rd "1.prems" R2 show ?thesis
            by (simp add: publish_wait.simps [of p c])
        next
          case sz: (Inr sz)
          show ?thesis
          proof (cases "sz = Some [0x02]")
            case False
            with w Inr True rd sz "1.prems" R2 show ?thesis
              by (simp add: publish_wait.simps [of p c])
          next
            case two: True
            obtain r3 c3 where b: "bnd (sread 2) be16 c2 = (r3, c3)"
              by (cases "bnd (sread 2) be16 c2")
            have "obeys R (bnd (sread 2) be16)" by (intro obeys_intros st)
            from obeysD [OF this b] R2 have R3: "R c c3"
              by (rule stable_trans [OF st, rotated])
            show ?thesis
            proof (cases r3)
              case (Inl e)
              with w Inr True rd sz two b "1.prems" R3 show ?thesis
                by (simp add: publish_wait.simps [of p c])
            next
              case rcv: (Inr rcv)
              show ?thesis
              proof (cases "p = rcv")
                case True
                with w Inr \<open>op = Some 0x40\<close> rd sz two b rcv "1.prems" R3 show ?thesis
                  by (simp add: publish_wait.simps [of rcv c])
              next
                case False
                with w Inr \<open>op = Some 0x40\<close> rd sz two b rcv "1.prems"
                have "publish_wait p c3 = (r, c')"
                  by (simp add: publish_wait.simps [of p c])
                from "1.IH"(1) [OF w [symmetric] Inr \<open>op = Some 0x40\<close> rd [symmetric] sz _
                    b [symmetric] rcv False this] two
                have "R c3 c'" by simp
                with R3 show ?thesis by (rule stable_trans [OF st])
              qed
            qed
          qed
        qed
      qed
    qed
  qed
  then show ?thesis by (auto simp: obeys_def)
qed

lemma obeys_subscribe_wait:
  assumes st: "stable R"
  shows "obeys R (subscribe_wait pkt)"
proof -
  have "subscribe_wait pkt c = (r, c') \<Longrightarrow> R c c'" for c r c'
  proof (induction pkt c arbitrary: r c' rule: subscribe_wait.induct)
    case (1 pkt c)
    obtain r1 c1 where w: "simple_wait_msg c = (r1, c1)" by (cases "simple_wait_msg c")
    from obeysD [OF obeys_simple_wait_msg [OF st] w] have R1: "R c c1" .
    show ?case
    proof (cases r1)
      case (Inl e)
      with w "1.prems" R1 show ?thesis by (simp add: subscribe_wait.simps [of pkt c])
    next
      case (Inr op)
      show ?thesis
      proof (cases "op = Some 0x90")
        case False
        with w Inr "1.prems" have "subscribe_wait pkt c1 = (r, c')"
          by (simp add: subscribe_wait.simps [of pkt c])
        from "1.IH" [OF w [symmetric] Inr False this] have "R c1 c'" .
        with R1 show ?thesis by (rule stable_trans [OF st])
      next
        case True
        let ?m = "bnd (sread 4) (\<lambda>resp.
            bnd (index resp 1) (\<lambda>r1.
            bnd (if r1 = pkt ! 2 then bnd (index resp 2) (\<lambda>r2. ret (r2 = pkt ! 3))
                 else ret False) (\<lambda>ok.
              if \<not> ok then raise AssertionError
              else bnd (index resp 3) (\<lambda>r3.
                if r3 = 0x80 then raise (MQTTException r3) else ret ()))))"
        have "obeys R ?m" by (intro obeys_intros st)
        moreover from w Inr True "1.prems" have "?m c1 = (r, c')"
          by (simp add: subscribe_wait.simps [of pkt c])
        ultimately have "R c1 c'" by (rule obeysD)
        with R1 show ?thesis by (rule stable_trans [OF st])
      qed
    qed
  qed
  then show ?thesis by (auto simp: obeys_def)
qed

definition same_pid :: "client \<Rightarrow> client \<Rightarrow> bool" where
  "same_pid c c' \<longleftrightarrow> pid c' = pid c"

lemma stable_same_pid: "stable same_pid"
  unfolding stable_def
proof (intro conjI allI impI)
  fix n show "obeys same_pid (sread n)"
    unfolding obeys_def same_pid_def sread_def by (auto elim!: with_sock_cases)
next
  fix bs show "obeys same_pid (swrite bs)"
    unfolding obeys_def same_pid_def swrite_def by (auto elim!: with_sock_cases)
next
  fix t m show "obeys same_pid (call_cb t m)"
    by (auto simp: obeys_def same_pid_def call_cb_def split: if_splits)
qed (auto simp: same_pid_def)

lemma bnd_assoc: "bnd (bnd m f) g = bnd m (\<lambda>x. bnd (f x) g)"
  by (rule ext) (simp add: bnd_def split: prod.splits sum.splits)

lemma bnd_next_pid: "bnd next_pid f c = f (pid c + 1) (c\<lparr>pid := pid c + 1\<rparr>)"
  by (simp add: bnd_def next_pid_def)

lemma simple_subscribe_pid:
  assumes "simple_subscribe topic qos c = (r, c')"
  shows "pid c' = (if cb c then pid c + 1 else pid c)"
proof (cases "cb c")
  case False
  with assms show ?thesis by (simp add: simple_subscribe_def raise_def)
next
  case True
  let ?f = "\<lambda>p. let pkt = [0x82, pack_B (2 + 2 + int (length topic) + 1)] @ pack_H p
              in bnd (swrite pkt) (\<lambda>_.
                 bnd (send_str topic) (\<lambda>_.
                 bnd (swrite [of_nat qos]) (\<lambda>_.
                   subscribe_wait pkt)))"
  have "obeys same_pid (?f p)" for p
    unfolding Let_def by (intro obeys_intros obeys_subscribe_wait stable_same_pid)
  moreover from True assms have "?f (pid c + 1) (c\<lparr>pid := pid c + 1\<rparr>) = (r, c')"
    by (simp add: simple_subscribe_def bnd_next_pid)
  ultimately have "same_pid (c\<lparr>pid := pid c + 1\<rparr>) c'" by (rule obeysD)
  with True show ?thesis by (simp add: same_pid_def)
qed


lemma top_bit_int:
  fixes v :: int
  assumes "128 \<le> v" "v < 256"
  shows "(v AND 0x7F) OR 0x80 = v"
proof (rule bit_eqI)
  fix n
  have a: "take_bit 8 v = v" using assms by (simp add: take_bit_int_eq_self)
  have "v div 128 = 1" using assms by simp
  then have b7: "bit v 7" by (simp add: bit_iff_odd)
  have hi: "bit v n \<Longrightarrow> n < 8" using a by (metis bit_take_bit_iff)
  show "bit ((v AND 0x7F) OR 0x80) n = bit v n"
  proof (cases "n = 7")
    case True
    with b7 show ?thesis by (simp add: bit_simps bit128_int)
  next
    case False
    with hi have "bit v n \<Longrightarrow> n < 7" by force
    with False show ?thesis unfolding mask7_int by (auto simp: bit_simps bit128_int)
  qed
qed

lemma top_bit_byte:
  fixes v :: int
  assumes "128 \<le> v" "v < 256"
  shows "(word_of_int v :: byte) AND 0x80 \<noteq> 0"
  by (metis assms cont_byte_top_set top_bit_int)

lemma encode_len_two:
  fixes v :: int
  assumes "128 \<le> v" "v < 256"
  shows "encode_len [h, 0, 0, 0] 1 v = Inr ([h, word_of_int v, 0x01, 0], 2)"
proof -
  have "drop_bit 7 v = 1" using assms by (simp add: drop_bit_eq_div)
  with assms top_bit_int [OF assms] show ?thesis
    by (simp add: encode_len.simps [of _ _ v] encode_len.simps [of _ _ 1])
qed


lemma simple_publish_pid:
  assumes "simple_publish topic msg retain qos c = (r, c')"
  shows "(pid c' = pid c \<or> (0 < qos \<and> pid c' = pid c + 1)) \<and>
         (r = Inr () \<and> 0 < qos \<longrightarrow> pid c' = pid c + 1)"
proof (cases "publish_size topic msg qos < 2097152")
  case False
  with assms show ?thesis
    by (auto simp: simple_publish_def Let_def publish_size_def raise_def split: if_splits)
next
  case True
  have nn: "0 \<le> publish_size topic msg qos" by (simp add: publish_size_def)
  from encode_len_publish [OF nn True, of "publish_flags retain qos"]
  obtain pkt i where e: "encode_len [publish_flags retain qos, 0, 0, 0] 1 (publish_size topic msg qos) = Inr (pkt, i)"
    by blast
  define tail where "tail = (\<lambda>p. bnd (swrite msg) (\<lambda>_.
                  if qos = 1 then publish_wait p
                  else if qos = 2 then raise AssertionError
                  else ret ()))"
  have tail: "obeys same_pid (tail p)" for p
    unfolding tail_def by (intro obeys_intros obeys_publish_wait stable_same_pid)
  have sz: "(if 0 < qos then 2 + int (length topic) + int (length msg) + 2 else 2 + int (length topic) + int (length msg)) = publish_size topic msg qos"
    by (simp add: publish_size_def)
  have unf: "simple_publish topic msg retain qos =
      bnd (swrite (take (i + 1) pkt)) (\<lambda>_.
      bnd (send_str topic) (\<lambda>_.
      bnd (if qos > 0
           then bnd next_pid (\<lambda>p.
                bnd (swrite (take 2 (pack_H p @ drop 2 pkt))) (\<lambda>_. ret p))
           else ret 0) tail))"
    using True e
    by (simp add: simple_publish_def Let_def sz publish_flags_def [symmetric] tail_def
        del: One_nat_def)
  show ?thesis
  proof (cases "0 < qos")
    case False
    from False have "simple_publish topic msg retain qos =
        bnd (swrite (take (i + 1) pkt)) (\<lambda>_. bnd (send_str topic) (\<lambda>_. bnd (ret 0) tail))"
      unfolding unf by simp
    then have "obeys same_pid (simple_publish topic msg retain qos)"
      by (simp only:) (intro obeys_bnd obeys_swrite obeys_send_str obeys_ret stable_same_pid tail)
    from obeysD [OF this assms] False show ?thesis by (simp add: same_pid_def)
  next
    case pos: True
    from assms [unfolded unf] show ?thesis
    proof (cases rule: bnd_cases)
      case (1 e)
      from obeysD [OF obeys_swrite [OF stable_same_pid] 1(1)] 1(2) show ?thesis
        by (simp add: same_pid_def)
    next
      case (2 x c1)
      from obeysD [OF obeys_swrite [OF stable_same_pid] 2(1)] have p1: "pid c1 = pid c"
        by (simp add: same_pid_def)
      from 2(2) show ?thesis
      proof (cases rule: bnd_cases)
        case (1 e)
        from obeysD [OF obeys_send_str [OF stable_same_pid] 1(1)] 1(2) p1 show ?thesis
          by (simp add: same_pid_def)
      next
        case (2 y c2)
        from obeysD [OF obeys_send_str [OF stable_same_pid] 2(1)] p1 have p2: "pid c2 = pid c"
          by (simp add: same_pid_def)
        let ?f = "\<lambda>p. bnd (bnd (swrite (take 2 (pack_H p @ drop 2 pkt))) (\<lambda>_. ret p)) tail"
        have "obeys same_pid (?f p)" for p
          by (intro obeys_intros stable_same_pid tail)
        moreover from 2(2) pos have "?f (pid c2 + 1) (c2\<lparr>pid := pid c2 + 1\<rparr>) = (r, c')"
          by (simp add: bnd_assoc bnd_next_pid)
        ultimately have "same_pid (c2\<lparr>pid := pid c2 + 1\<rparr>) c'" by (rule obeysD)
        with p2 pos show ?thesis by (simp add: same_pid_def)
      qed
    qed
  qed
qed

subsection \<open>What has been read when the wait for PUBACK ends\<close>

text \<open>The log of the bytes read from the socket of a client.\<close>

definition rd_of :: "client \<Rightarrow> bytes" where
  "rd_of c = (case sock c of None \<Rightarrow> [] | Some s \<Rightarrow> rd s)"

definition rd_grows :: "client \<Rightarrow> client \<Rightarrow> bool" where
  "rd_grows c c' \<longleftrightarrow> (\<exists>ext. rd_of c' = rd_of c @ ext)"

lemma gather_count: "gather blk n its = (Inr bs, r) \<Longrightarrow> length bs \<le> n"
proof (induction blk n its arbitrary: bs r rule: gather.induct)
  case (3 blk n b its)
  then show ?case by (fastforce split: prod.splits sum.splits)
next
  case (5 blk n its)
  then show ?case by (fastforce split: if_splits)
qed auto

lemma sock_read_result:
  assumes "sock_read n s = (r, s')"
  shows "(case r of Inr (Some bs) \<Rightarrow> rd s' = rd s @ bs \<and> (0 \<le> n \<longrightarrow> length bs \<le> nat n)
          | _ \<Rightarrow> rd s' = rd s)"
  using assms
  by (auto simp: sock_read_def split: if_splits prod.splits sum.splits option.splits
      dest: gather_count)

lemma sread_result:
  assumes "sread n c = (Inr (Some bs), c')"
  shows "rd_of c' = rd_of c @ bs" "0 \<le> n \<Longrightarrow> length bs \<le> nat n"
  using assms unfolding sread_def
  by (auto elim!: with_sock_cases simp: rd_of_def dest!: sock_read_result)

lemma stable_rd_grows: "stable rd_grows"
  unfolding stable_def
proof (intro conjI allI impI)
  fix n show "obeys rd_grows (sread n)"
    unfolding obeys_def rd_grows_def sread_def
    by (auto elim!: with_sock_cases simp: rd_of_def dest!: sock_read_result
        split: sum.splits option.splits)
next
  fix bs show "obeys rd_grows (swrite bs)"
    unfolding obeys_def rd_grows_def swrite_def
    by (auto elim!: with_sock_cases simp: rd_of_def dest: sock_write_rx)
next
  fix t m show "obeys rd_grows (call_cb t m)"
    by (auto simp: obeys_def rd_grows_def rd_of_def call_cb_def split: if_splits)
next
  fix a b c assume "rd_grows a b" "rd_grows b c"
  then show "rd_grows a c" unfolding rd_grows_def by auto
qed (auto simp: rd_grows_def)

definition yields :: "('a \<Rightarrow> bool) \<Rightarrow> 'a act \<Rightarrow> bool" where
  "yields P m \<longleftrightarrow> (\<forall>c r c'. m c = (Inr r, c') \<longrightarrow> P r)"

lemma yieldsD: "yields P m \<Longrightarrow> m c = (Inr r, c') \<Longrightarrow> P r"
  by (auto simp: yields_def)

lemma yields_bnd: "(\<And>x. yields P (f x)) \<Longrightarrow> yields P (bnd m f)"
  unfolding yields_def by (auto elim!: bnd_cases)

lemma yields_ret: "P x \<Longrightarrow> yields P (ret x)"
  by (simp add: yields_def ret_def)

lemma yields_raise: "yields P (raise e)"
  by (simp add: yields_def raise_def)

lemma yields_if: "(Q \<Longrightarrow> yields P a) \<Longrightarrow> (\<not> Q \<Longrightarrow> yields P b) \<Longrightarrow> yields P (if Q then a else b)"
  by simp

lemma yields_case_prod: "(\<And>a b. yields P (f a b)) \<Longrightarrow> yields P (case p of (a, b) \<Rightarrow> f a b)"
  by (cases p) simp

lemma wait_msg_rest_yields:
  "yields (\<lambda>r. r = None \<or> r = Some (hd bs) \<and> bs \<noteq> [0xD0]) (wait_msg_rest bs)"
  unfolding wait_msg_rest_def Let_def
  by (intro yields_if yields_bnd yields_ret yields_raise yields_case_prod) auto

lemma wait_msg_opcode_read:
  assumes "simple_wait_msg c = (Inr (Some op), c')" and "op AND 0xF0 \<noteq> 0x30"
  shows "rd_of c' = rd_of c @ [op]"
  using assms(1) unfolding simple_wait_msg_unfold
proof (cases rule: bnd_cases)
  case (2 res c1)
  show ?thesis
  proof (cases res)
    case None
    with 2 show ?thesis by (simp add: ret_def)
  next
    case (Some bs)
    with 2 have bs: "bs \<noteq> []" and w: "wait_msg_rest bs c1 = (Inr (Some op), c')"
      by (auto simp: raise_def split: if_splits)
    from sread_result [of 1 c bs c1] 2 Some have rd: "rd_of c1 = rd_of c @ bs" "length bs \<le> 1"
      by simp_all
    with bs obtain b where b: "bs = [b]" by (cases bs) auto
    from yieldsD [OF wait_msg_rest_yields w] b have op: "op = b" "b \<noteq> 0xD0" by simp_all
    with w b assms(2) have "c' = c1"
      by (simp add: wait_msg_rest_def ret_def)
    with rd b op show ?thesis by simp
  qed
qed simp

lemma be16_read:
  assumes "bnd (sread 2) be16 c = (Inr v, c')"
  shows "\<exists>hi lo. rd_of c' = rd_of c @ [hi, lo] \<and> v = push_bit 8 (uint hi) OR uint lo"
  using assms
proof (cases rule: bnd_cases)
  case (2 r c1)
  from 2(2) obtain bs where r: "r = Some bs" and len: "1 < length bs"
    and v: "v = push_bit 8 (uint (bs ! 0)) OR uint (bs ! 1)" and c': "c' = c1"
    unfolding be16_def
    by (auto elim!: bnd_cases dest!: index_Inr simp: ret_def)
  from sread_result [of 2 c bs c1] 2(1) r have rd: "rd_of c1 = rd_of c @ bs" "length bs \<le> 2"
    by simp_all
  with len obtain hi lo where "bs = [hi, lo]"
    by (cases bs; cases "tl bs") auto
  with rd v c' show ?thesis by auto
qed simp

lemma publish_wait_returns:
  "publish_wait p c = (Inr (), c') \<Longrightarrow>
   \<exists>pre hi lo. rd_of c' = rd_of c @ pre @ [0x40, 0x02, hi, lo] \<and>
     p = push_bit 8 (uint hi) OR uint lo"
proof (induction p c rule: publish_wait.induct)
  case (1 p c)
  obtain r1 c1 where w: "simple_wait_msg c = (r1, c1)" by (cases "simple_wait_msg c")
  from "1.prems" w obtain op where r1: "r1 = Inr op"
    by (cases r1) (auto simp: publish_wait.simps [of p c])
  from obeysD [OF obeys_simple_wait_msg [OF stable_rd_grows] w]
  obtain e1 where g1: "rd_of c1 = rd_of c @ e1" by (auto simp: rd_grows_def)
  show ?case
  proof (cases "op = Some 0x40")
    case False
    with w r1 "1.prems" have "publish_wait p c1 = (Inr (), c')"
      by (simp add: publish_wait.simps [of p c])
    from "1.IH"(2) [OF w [symmetric] r1 False this] g1 show ?thesis by auto
  next
    case True
    from wait_msg_opcode_read [of c "0x40" c1] w r1 True
    have a1: "rd_of c1 = rd_of c @ [0x40]" by simp
    obtain r2 c2 where rd: "sread 1 c1 = (r2, c2)" by (cases "sread 1 c1")
    with "1.prems" w r1 True have r2: "r2 = Inr (Some [0x02])"
      by (cases r2) (auto simp: publish_wait.simps [of p c] split: if_splits)
    from sread_result(1) [of 1 c1 "[0x02]" c2] rd r2
    have a2: "rd_of c2 = rd_of c1 @ [0x02]" by simp
    obtain r3 c3 where b: "bnd (sread 2) be16 c2 = (r3, c3)"
      by (cases "bnd (sread 2) be16 c2")
    with "1.prems" w r1 True rd r2 obtain rcv where r3: "r3 = Inr rcv"
      by (cases r3) (auto simp: publish_wait.simps [of p c])
    from be16_read [of c2 rcv c3] b r3 obtain hi lo
      where a3: "rd_of c3 = rd_of c2 @ [hi, lo]" and rcv: "rcv = push_bit 8 (uint hi) OR uint lo"
      by auto
    show ?thesis
    proof (cases "p = rcv")
      case True
      with "1.prems" w r1 \<open>op = Some 0x40\<close> rd r2 b r3 have "c' = c3"
        by (simp add: publish_wait.simps [of rcv c])
      with a1 a2 a3 rcv True show ?thesis by auto
    next
      case False
      with "1.prems" w r1 \<open>op = Some 0x40\<close> rd r2 b r3
      have "publish_wait p c3 = (Inr (), c')"
        by (simp add: publish_wait.simps [of p c])
      from "1.IH"(1) [OF w [symmetric] r1 \<open>op = Some 0x40\<close> rd [symmetric] r2 _
          b [symmetric] r3 False this]
      obtain pre hi' lo' where "rd_of c' = rd_of c3 @ pre @ [0x40, 0x02, hi', lo']"
        "p = push_bit 8 (uint hi') OR uint lo'" by auto
      with a1 a2 a3 show ?thesis by auto
    qed
  qed
qed


lemma rd_of_pid [simp]: "rd_of (c\<lparr>pid := p\<rparr>) = rd_of c"
  by (simp add: rd_of_def)

lemma bnd_ret: "bnd (ret x) f = f x"
  by (rule ext) (simp add: bnd_def ret_def)

lemma simple_publish_size:
  assumes "simple_publish topic msg retain qos c = (Inr v, c')"
  shows "publish_size topic msg qos < 2097152"
  using assms
  by (auto simp: simple_publish_def Let_def publish_size_def raise_def split: if_splits)

lemma simple_publish_unfold:
  assumes "publish_size topic msg qos < 2097152"
  shows "\<exists>pkt i.
     encode_len [publish_flags retain qos, 0, 0, 0] 1 (publish_size topic msg qos) = Inr (pkt, i) \<and>
     simple_publish topic msg retain qos =
       bnd (swrite (take (i + 1) pkt)) (\<lambda>_.
       bnd (send_str topic) (\<lambda>_.
       bnd (if qos > 0
            then bnd next_pid (\<lambda>p.
                 bnd (swrite (take 2 (pack_H p @ drop 2 pkt))) (\<lambda>_. ret p))
            else ret 0) (\<lambda>p.
       bnd (swrite msg) (\<lambda>_.
         if qos = 1 then publish_wait p
         else if qos = 2 then raise AssertionError
         else ret ()))))"
proof -
  have nn: "0 \<le> publish_size topic msg qos" by (simp add: publish_size_def)
  from encode_len_publish [OF nn assms, of "publish_flags retain qos"]
  obtain pkt i where e: "encode_len [publish_flags retain qos, 0, 0, 0] 1 (publish_size topic msg qos) = Inr (pkt, i)"
    by blast
  have sz: "(if 0 < qos then 2 + int (length topic) + int (length msg) + 2 else 2 + int (length topic) + int (length msg)) = publish_size topic msg qos"
    by (simp add: publish_size_def)
  from assms e have "simple_publish topic msg retain qos =
       bnd (swrite (take (i + 1) pkt)) (\<lambda>_.
       bnd (send_str topic) (\<lambda>_.
       bnd (if qos > 0
            then bnd next_pid (\<lambda>p.
                 bnd (swrite (take 2 (pack_H p @ drop 2 pkt))) (\<lambda>_. ret p))
            else ret 0) (\<lambda>p.
       bnd (swrite msg) (\<lambda>_.
         if qos = 1 then publish_wait p
         else if qos = 2 then raise AssertionError
         else ret ()))))"
    by (simp add: simple_publish_def Let_def sz publish_flags_def [symmetric] del: One_nat_def)
  with e show ?thesis by blast
qed

lemma simple_publish_qos1_returns:
  assumes "simple_publish topic msg retain 1 c = (Inr (), c')"
  shows "\<exists>pre hi lo. rd_of c' = rd_of c @ pre @ [0x40, 0x02, hi, lo] \<and>
           pid c' = pid c + 1 \<and> push_bit 8 (uint hi) OR uint lo = pid c + 1"
proof -
  from simple_publish_unfold [OF simple_publish_size [OF assms], of retain]
  obtain pkt i where "simple_publish topic msg retain 1 =
      bnd (swrite (take (i + 1) pkt)) (\<lambda>_.
      bnd (send_str topic) (\<lambda>_.
      bnd (bnd next_pid (\<lambda>p.
                 bnd (swrite (take 2 (pack_H p @ drop 2 pkt))) (\<lambda>_. ret p))) (\<lambda>p.
      bnd (swrite msg) (\<lambda>_. publish_wait p))))"
    by auto
  then have unf: "simple_publish topic msg retain 1 =
      bnd (swrite (take (i + 1) pkt)) (\<lambda>_.
      bnd (send_str topic) (\<lambda>_.
      bnd next_pid (\<lambda>p.
      bnd (swrite (take 2 (pack_H p @ drop 2 pkt))) (\<lambda>_.
      bnd (swrite msg) (\<lambda>_. publish_wait p)))))"
    by (simp only: bnd_assoc bnd_ret)
  have g: "\<exists>ext. rd_of b = rd_of a @ ext" if "obeys rd_grows m" "m a = (r, b)" for m :: "unit act" and a r b
    using obeysD [OF that] by (simp add: rd_grows_def)
  from assms [unfolded unf] obtain x1 c1 x2 c2 x4 c4 x5 c5
    where s1: "swrite (take (i + 1) pkt) c = (Inr x1, c1)"
      and s2: "send_str topic c1 = (Inr x2, c2)"
      and s4: "swrite (take 2 (pack_H (pid c2 + 1) @ drop 2 pkt)) (c2\<lparr>pid := pid c2 + 1\<rparr>) = (Inr x4, c4)"
      and s5: "swrite msg c4 = (Inr x5, c5)"
      and w: "publish_wait (pid c2 + 1) c5 = (Inr (), c')"
    by (auto elim!: bnd_cases simp: next_pid_def)
  from g [OF obeys_swrite [OF stable_rd_grows] s1] g [OF obeys_send_str [OF stable_rd_grows] s2]
    g [OF obeys_swrite [OF stable_rd_grows] s4] g [OF obeys_swrite [OF stable_rd_grows] s5]
  obtain ext where ext: "rd_of c5 = rd_of c @ ext" by auto
  from obeysD [OF obeys_swrite [OF stable_same_pid] s1] obeysD [OF obeys_send_str [OF stable_same_pid] s2]
  have p2: "pid c2 = pid c" by (simp add: same_pid_def)
  from publish_wait_returns [OF w] obtain pre hi lo
    where "rd_of c' = rd_of c5 @ pre @ [0x40, 0x02, hi, lo]"
      "pid c2 + 1 = push_bit 8 (uint hi) OR uint lo" by auto
  with ext p2 simple_publish_pid [OF assms] show ?thesis by auto
qed


subsection \<open>The loops of the wrapper, one round at a time\<close>

lemma robust_wait_msg_done:
  "simple_wait_msg c = (r, c') \<Longrightarrow> r \<noteq> Inl OSError \<Longrightarrow> robust_wait_msg c = Some (r, c')"
  by (subst robust_wait_msg.simps) (auto split: sum.splits)

lemma robust_wait_msg_again:
  "simple_wait_msg c = (Inl OSError, c1) \<Longrightarrow>
   robust_wait_msg c =
     (case reconnect (log False OSError c1) of
        None \<Rightarrow> None
      | Some (Inl e', c2) \<Rightarrow> Some (Inl e', c2)
      | Some (Inr _, c2) \<Rightarrow> robust_wait_msg c2)"
  by (subst robust_wait_msg.simps) simp

lemma robust_wait_msg_retry:
  assumes "\<forall>j<k. \<exists>c1 v. simple_wait_msg (cs j) = (Inl OSError, c1) \<and>
              reconnect (log False OSError c1) = Some (Inr v, cs (Suc j))"
    and "simple_wait_msg (cs k) = (r, c')" and "r \<noteq> Inl OSError"
  shows "robust_wait_msg (cs 0) = Some (r, c')"
  using assms
proof (induction k arbitrary: cs)
  case 0
  then show ?case by (simp add: robust_wait_msg_done)
next
  case (Suc k)
  from Suc.prems(1) obtain c1 v where f: "simple_wait_msg (cs 0) = (Inl OSError, c1)"
    "reconnect (log False OSError c1) = Some (Inr v, cs (Suc 0))" by auto
  have "robust_wait_msg ((\<lambda>j. cs (Suc j)) 0) = Some (r, c')"
    using Suc.prems by (intro Suc.IH) auto
  with f show ?case by (simp add: robust_wait_msg_again)
qed



lemma reconnect_loop_error:
  assumes "reconnect_loop i c = Some (Inl e, d)"
  shows "e \<noteq> OSError"
proof -
  have "reconnect_loop i c = Some rd \<Longrightarrow> fst rd \<noteq> Inl OSError" for rd
  proof (rule reconnect_loop.raw_induct [where P = "\<lambda>i c rd. fst rd \<noteq> Inl OSError"])
    fix f i c rd
    assume IH: "\<And>i c rd. f i c = Some rd \<Longrightarrow> fst rd \<noteq> Inl OSError"
      and eq: "(case simple_connect False c of
        (Inr v, c') \<Rightarrow> Some (Inr v, c')
      | (Inl e, c') \<Rightarrow>
          if e = OSError then f (i + 1) (sleep (i + 1) (log True e c'))
          else Some (Inl e, c')) = Some rd"
    obtain r0 c0 where sc: "simple_connect False c = (r0, c0)"
      by (cases "simple_connect False c")
    show "fst rd \<noteq> Inl OSError"
    proof (cases r0)
      case (Inr v)
      with eq sc show ?thesis by auto
    next
      case (Inl e)
      show ?thesis
      proof (cases "e = OSError")
        case True
        with eq sc Inl have "f (i + 1) (sleep (i + 1) (log True e c0)) = Some rd" by simp
        then show ?thesis by (rule IH)
      next
        case False
        with eq sc Inl have "rd = (Inl e, c0)" by simp
        with False show ?thesis by simp
      qed
    qed
  qed
  from this [OF assms] show ?thesis by simp
qed


subsection \<open>The inherited publish and a network that stays down\<close>

lemma bnd_raise: "bnd (raise e) f = raise e"
  by (rule ext) (simp add: bnd_def raise_def)

lemma simple_publish_head:
  "simple_publish topic msg retain qos =
     bnd (publish_head topic msg retain qos) (\<lambda>p.
       if qos = 1 then publish_wait p
       else if qos = 2 then raise AssertionError
       else ret ())"
  unfolding simple_publish_def publish_head_def Let_def
  by (simp add: bnd_raise bnd_assoc bnd_ret split: sum.splits prod.splits)

lemma connect_down:
  "net c = [] \<Longrightarrow> simple_connect cs c = (Inl OSError, c\<lparr>sock := Some fresh_socket\<rparr>)"
  by (simp add: simple_connect_def bnd_def open_socket_def)

lemma reconnect_loop_down:
  assumes "net c = []"
  shows "reconnect_loop i c = None"
proof -
  have "reconnect_loop i c = Some rd \<Longrightarrow> net c \<noteq> []" for rd
  proof (rule reconnect_loop.raw_induct [where P = "\<lambda>i c rd. net c \<noteq> []"])
    fix f i c rd
    assume IH: "\<And>i c rd. f i c = Some rd \<Longrightarrow> net c \<noteq> []"
      and eq: "(case simple_connect False c of
        (Inr v, c') \<Rightarrow> Some (Inr v, c')
      | (Inl e, c') \<Rightarrow>
          if e = OSError then f (i + 1) (sleep (i + 1) (log True e c'))
          else Some (Inl e, c')) = Some rd"
    show "net c \<noteq> []"
    proof
      assume down: "net c = []"
      with eq have "f (i + 1) (sleep (i + 1) (log True OSError (c\<lparr>sock := Some fresh_socket\<rparr>))) = Some rd"
        by (simp add: connect_down)
      from IH [OF this] down show False by (simp add: sleep_def log_def split: if_splits)
    qed
  qed
  with assms show ?thesis by (cases "reconnect_loop i c") auto
qed

lemma reconnect_down: "net c = [] \<Longrightarrow> reconnect c = None"
  by (simp add: reconnect_def reconnect_loop_down)

lemma robust_wait_msg_hangs:
  "simple_wait_msg c = (Inl OSError, c1) \<Longrightarrow> net (log False OSError c1) = [] \<Longrightarrow>
   robust_wait_msg c = None"
  by (subst robust_wait_msg.simps) (simp add: reconnect_down)

lemma robust_publish_wait_hangs:
  "robust_wait_msg c = None \<Longrightarrow> robust_publish_wait p c = None"
  by (subst robust_publish_wait.simps) simp

lemma robust_publish_wait_mismatch:
  "robust_wait_msg c = Some (Inr (Some 0x40), c1) \<Longrightarrow> sread 1 c1 = (Inr (Some [0x02]), c2) \<Longrightarrow>
   bnd (sread 2) be16 c2 = (Inr v, c3) \<Longrightarrow> p \<noteq> v \<Longrightarrow>
   robust_publish_wait p c = robust_publish_wait p c3"
  by (subst robust_publish_wait.simps) simp

lemma super_publish_qos1:
  "publish_head topic msg retain 1 c = (Inr p, c1) \<Longrightarrow>
   super_publish topic msg retain 1 c = robust_publish_wait p c1"
  by (simp add: super_publish_def)

lemma robust_publish_hangs:
  "super_publish topic msg retain qos c = None \<Longrightarrow> robust_publish topic msg retain qos c = None"
  by (subst robust_publish.simps) simp



subsection \<open>The sleeps of reconnect\<close>












subsection \<open>check_msg, one round at a time\<close>







section \<open>The claims\<close>

text \<open>
  C1. Remaining-length round trip. For every \<open>n\<close> with \<open>0 \<le> n < 2097152\<close> the encoding
  loop of \<^verbatim>\<open>publish\<close>, run on its four-byte packet buffer from index 1, succeeds, and
  \<^verbatim>\<open>_recv_len\<close>, reading the bytes the loop has stored (those \<^verbatim>\<open>publish\<close> writes after
  the first header byte) from a connected socket, returns \<open>n\<close> and consumes exactly
  these bytes.
\<close>

theorem remaining_length_roundtrip:
  assumes "0 \<le> n" and "n < 2097152"
  shows "\<exists>pkt i. encode_len [h, 0, 0, 0] 1 n = Inr (pkt, i) \<and>
     recv_len (c\<lparr>sock := Some (s\<lparr>status := Connected,
                                   rx := map B (drop 1 (take (i + 1) pkt)) @ rest\<rparr>)\<rparr>) =
       (Inr n, c\<lparr>sock := Some (s\<lparr>status := Connected, rx := rest,
                                  rd := rd s @ drop 1 (take (i + 1) pkt)\<rparr>)\<rparr>)"
proof -
  let ?v = "varint n"
  let ?k = "length ?v"
  have k: "?k \<le> 3" "0 < ?k" using assms varint_length [of n] varint_nonempty [of n] by auto
  define pkt where "pkt = take 1 [h, 0, 0, 0] @ ?v @ drop (1 + ?k) [h, 0, 0, 0]"
  define i where "i = 1 + ?k - 1"
  from k have enc: "encode_len [h, 0, 0, 0] 1 n = Inr (pkt, i)"
    unfolding pkt_def i_def by (intro encode_len_varint) simp
  from k have bytes: "drop 1 (take (i + 1) pkt) = ?v"
    by (simp add: pkt_def i_def)
  let ?s = "s\<lparr>status := Connected, rx := map B ?v @ rest\<rparr>"
  have "recv_len_loop 0 0 (c\<lparr>sock := Some ?s\<rparr>) =
      (Inr (0 OR push_bit 0 n),
       c\<lparr>sock := Some ?s\<rparr>\<lparr>sock := Some (?s\<lparr>rx := rest, rd := rd ?s @ ?v\<rparr>)\<rparr>)"
    using assms(1) by (intro recv_len_loop_varint) simp_all
  then have dec: "recv_len (c\<lparr>sock := Some ?s\<rparr>) =
      (Inr n, c\<lparr>sock := Some (s\<lparr>status := Connected, rx := rest, rd := rd s @ ?v\<rparr>)\<rparr>)"
    by (simp add: recv_len_def)
  show ?thesis
    by (intro exI [of _ pkt] exI [of _ i] conjI enc) (simp only: bytes dec)
qed

theorem remaining_length_roundtrip_witness:
  "(0::int) \<le> 321 \<and> (321::int) < 2097152 \<and>
   encode_len [0x30, 0, 0, 0] 1 321 = Inr ([0x30, 0xC1, 0x02, 0], 2) \<and>
   recv_len (demo []\<lparr>sock := Some (fresh_socket\<lparr>status := Connected,
                                                   rx := map B [0xC1, 0x02] @ [B 0x00]\<rparr>)\<rparr>) =
     (Inr 321, demo []\<lparr>sock := Some (fresh_socket\<lparr>status := Connected, rx := [B 0x00],
                                                    rd := rd fresh_socket @ [0xC1, 0x02]\<rparr>)\<rparr>)"
proof -
  have e: "encode_len [0x30, 0, 0, 0] 1 321 = Inr ([0x30, 0xC1, 0x02, 0], 2)"
    by (simp add: encode_len.simps)
  from remaining_length_roundtrip [where n = 321 and h = "0x30" and c = "demo []"
      and s = fresh_socket and rest = "[B 0x00]"] e
  show ?thesis by simp
qed

text \<open>
  C9. When the next byte on a connected socket is an opcode \<open>op\<close> that is neither a
  PUBLISH (high nibble \<open>0x30\<close>) nor PINGRESP (\<open>0xD0\<close>), \<^verbatim>\<open>wait_msg\<close> returns
  \<open>op\<close> and has consumed this one byte only: the remaining-length field and the body
  stay on the stream. The three bytes that follow the opcode of a PUBACK are consumed
  by the loop of \<^verbatim>\<open>publish\<close>, the four that follow the opcode of a SUBACK by the loop
  of \<^verbatim>\<open>subscribe\<close>.
\<close>

theorem wait_msg_leaves_body_unread:
  assumes "sock c = Some s" and "status s = Connected" and "rx s = B op # rest"
    and "op AND 0xF0 \<noteq> 0x30" and "op \<noteq> 0xD0"
  shows "simple_wait_msg c =
           (Inr (Some op), c\<lparr>sock := Some (s\<lparr>rx := rest, rd := rd s @ [op]\<rparr>)\<rparr>) \<and>
         (\<forall>hi lo more. op = 0x40 \<and> rest = map B [0x02, hi, lo] @ more \<longrightarrow>
            publish_wait (push_bit 8 (uint hi) OR uint lo) c =
              (Inr (), c\<lparr>sock := Some (s\<lparr>rx := more,
                                          rd := rd s @ [0x40, 0x02, hi, lo]\<rparr>)\<rparr>)) \<and>
         (\<forall>l hi lo g more. op = 0x90 \<and> rest = map B [l, hi, lo, g] @ more \<and> g \<noteq> 0x80 \<longrightarrow>
            subscribe_wait [0x82, l, hi, lo] c =
              (Inr (), c\<lparr>sock := Some (s\<lparr>rx := more,
                                          rd := rd s @ [0x90, l, hi, lo, g]\<rparr>)\<rparr>))"
proof (intro conjI allI impI)
  show "simple_wait_msg c =
      (Inr (Some op), c\<lparr>sock := Some (s\<lparr>rx := rest, rd := rd s @ [op]\<rparr>)\<rparr>)"
    using assms by (rule wait_msg_opcode)
next
  fix hi lo more
  assume "op = 0x40 \<and> rest = map B [0x02, hi, lo] @ more"
  with assms(3) have "rx s = map B [0x40, 0x02, hi, lo] @ more" by simp
  from publish_wait_puback [OF assms(1,2) this]
  show "publish_wait (push_bit 8 (uint hi) OR uint lo) c =
      (Inr (), c\<lparr>sock := Some (s\<lparr>rx := more, rd := rd s @ [0x40, 0x02, hi, lo]\<rparr>)\<rparr>)"
    by simp
next
  fix l hi lo g more
  assume a: "op = 0x90 \<and> rest = map B [l, hi, lo, g] @ more \<and> g \<noteq> 0x80"
  with assms(3) have "rx s = map B [0x90, l, hi, lo, g] @ more" by simp
  from subscribe_wait_suback [OF assms(1,2) this, of "[0x82, l, hi, lo]"] a
  show "subscribe_wait [0x82, l, hi, lo] c =
      (Inr (), c\<lparr>sock := Some (s\<lparr>rx := more, rd := rd s @ [0x90, l, hi, lo, g]\<rparr>)\<rparr>)"
    by simp
qed

theorem wait_msg_leaves_body_unread_witness:
  "simple_wait_msg (demo []\<lparr>sock := Some (connected (map B [0x40, 0x02, 0x00, 0x07]))\<rparr>) =
     (Inr (Some 0x40),
      demo []\<lparr>sock := Some (connected (map B [0x40, 0x02, 0x00, 0x07])
                               \<lparr>rx := map B [0x02, 0x00, 0x07], rd := [0x40]\<rparr>)\<rparr>) \<and>
   publish_wait 7 (demo []\<lparr>sock := Some (connected (map B [0x40, 0x02, 0x00, 0x07]))\<rparr>) =
     (Inr (),
      demo []\<lparr>sock := Some (connected (map B [0x40, 0x02, 0x00, 0x07])
                               \<lparr>rx := [], rd := [0x40, 0x02, 0x00, 0x07]\<rparr>)\<rparr>)"
  using wait_msg_leaves_body_unread
    [where c = "demo []\<lparr>sock := Some (connected (map B [0x40, 0x02, 0x00, 0x07]))\<rparr>"
       and s = "connected (map B [0x40, 0x02, 0x00, 0x07])" and op = "0x40"
       and rest = "map B [0x02, 0x00, 0x07]"]
  by (simp add: connected_def fresh_socket_def)

text \<open>
  C5 as the specification states it: \<^verbatim>\<open>disconnect\<close> closes the transport also when the
  write of the DISCONNECT packet fails. It does not: the \<^verbatim>\<open>OSError\<close> of the write
  leaves \<^verbatim>\<open>disconnect\<close> before \<^verbatim>\<open>close\<close> is reached, and the socket stays connected.
\<close>

theorem disconnect_write_fails_counterexample:
  "disconnect (demo []\<lparr>sock := Some (connected []\<lparr>wfail := [True]\<rparr>)\<rparr>) =
     (Inl OSError, demo []\<lparr>sock := Some (connected [])\<rparr>) \<and>
   status (connected []) = Connected"
  by (simp add: disconnect_def bnd_def swrite_def with_sock_def sock_write_def connected_def
      fresh_socket_def)

text \<open>
  C5, amended. On a connected socket \<^verbatim>\<open>disconnect\<close> writes the two bytes of DISCONNECT
  and then closes the socket, when the write succeeds; when the write raises
  \<^verbatim>\<open>OSError\<close>, \<^verbatim>\<open>disconnect\<close> raises it, nothing is written and the socket is not
  closed.
\<close>

theorem disconnect_closes_iff_write_succeeds:
  assumes "sock c = Some s" and "status s = Connected"
  shows "disconnect c =
     (if take 1 (wfail s) = [True]
      then (Inl OSError, c\<lparr>sock := Some (s\<lparr>wfail := tl (wfail s)\<rparr>)\<rparr>)
      else (Inr (), c\<lparr>sock := Some (s\<lparr>wfail := tl (wfail s), tx := tx s @ [0xE0, 0x00],
                                         status := Closed\<rparr>)\<rparr>))"
  using assms
  by (cases "wfail s")
     (auto simp: disconnect_def bnd_def swrite_def with_sock_def sock_write_def sclose_def
       sock_close_def split: list.splits bool.splits)

theorem disconnect_closes_iff_write_succeeds_witness:
  "disconnect (demo []\<lparr>sock := Some (connected [])\<rparr>) =
     (Inr (), demo []\<lparr>sock := Some (connected []\<lparr>tx := [0xE0, 0x00], status := Closed\<rparr>)\<rparr>)"
  using disconnect_closes_iff_write_succeeds
    [where c = "demo []\<lparr>sock := Some (connected [])\<rparr>" and s = "connected []"]
  by (simp add: connected_def fresh_socket_def)

text \<open>
  C2 as the specification states it: with \<open>qos = 2\<close>, \<^verbatim>\<open>publish\<close> and \<^verbatim>\<open>subscribe\<close>
  fail before a byte is written. Neither does. \<^verbatim>\<open>publish\<close> reaches its
  \<^verbatim>\<open>assert 0\<close> after the whole PUBLISH packet has gone out, and \<^verbatim>\<open>subscribe\<close> never
  looks at \<open>qos\<close>: it sends the SUBSCRIBE packet and returns when the SUBACK comes.
\<close>

theorem qos2_counterexample:
  "simple_publish [0x74] [0x6D] False 2 (demo []\<lparr>sock := Some (connected [])\<rparr>) =
     (Inl AssertionError,
      demo []\<lparr>pid := 1,
               sock := Some (connected []\<lparr>tx := [0x34, 0x06, 0x00, 0x01, 0x74, 0x00, 0x01, 0x6D]\<rparr>)\<rparr>) \<and>
   simple_subscribe [0x74] 2
       (set_callback (demo [])\<lparr>sock := Some (connected (map B [0x90, 0x03, 0x00, 0x01, 0x02]))\<rparr>) =
     (Inr (),
      set_callback (demo [])\<lparr>pid := 1,
               sock := Some (connected (map B [0x90, 0x03, 0x00, 0x01, 0x02])
                              \<lparr>tx := [0x82, 0x06, 0x00, 0x01, 0x00, 0x01, 0x74, 0x02],
                                 rx := [], rd := [0x90, 0x03, 0x00, 0x01, 0x02]\<rparr>)\<rparr>)"
proof -
  have p: "pid (demo []) = 0" "pid (set_callback (demo [])) = 0" "cb (set_callback (demo []))"
    by (simp_all add: demo_def init_def set_callback_def)
  have e: "encode_len [0x34, 0, 0, 0] (Suc 0) 6 = Inr ([0x34, 0x06, 0, 0], 1)"
    by (simp add: encode_len.simps)
  have "simple_publish [0x74] [0x6D] False 2 (demo []\<lparr>sock := Some (connected [])\<rparr>) =
     (Inl AssertionError,
      demo []\<lparr>pid := 1,
               sock := Some (connected []\<lparr>tx := [0x34, 0x06, 0x00, 0x01, 0x74, 0x00, 0x01, 0x6D]\<rparr>)\<rparr>)"
    using publish_sends [where c = "demo []\<lparr>sock := Some (connected [])\<rparr>" and s = "connected []"
        and topic = "[0x74]" and msg = "[0x6D]" and qos = 2 and retain = False]
    by (simp add: p e connected_def fresh_socket_def publish_size_def publish_flags_def raise_def
        pack_H_def)
  moreover
  have "simple_subscribe [0x74] 2
       (set_callback (demo [])\<lparr>sock := Some (connected (map B [0x90, 0x03, 0x00, 0x01, 0x02]))\<rparr>) =
     (Inr (),
      set_callback (demo [])\<lparr>pid := 1,
               sock := Some (connected (map B [0x90, 0x03, 0x00, 0x01, 0x02])
                              \<lparr>tx := [0x82, 0x06, 0x00, 0x01, 0x00, 0x01, 0x74, 0x02],
                                 rx := [], rd := [0x90, 0x03, 0x00, 0x01, 0x02]\<rparr>)\<rparr>)"
    using subscribe_granted
      [where c = "set_callback (demo [])\<lparr>sock := Some (connected (map B [0x90, 0x03, 0x00, 0x01, 0x02]))\<rparr>"
         and s = "connected (map B [0x90, 0x03, 0x00, 0x01, 0x02])"
         and topic = "[0x74]" and qos = 2 and l = "0x03" and g = "0x02" and rest = "[]"]
    by (simp add: p connected_def fresh_socket_def pack_H_def pack_B_def)
  ultimately show ?thesis by (rule conjI)
qed

text \<open>
  C2, amended. With \<open>qos = 2\<close>, on a connected socket whose writes succeed,
  \<^verbatim>\<open>publish\<close> (size below 2097152) raises \<^verbatim>\<open>AssertionError\<close> only after it has taken a
  new packet identifier and written the whole PUBLISH packet: the fixed header with the
  QoS bits 2, the topic, the identifier and the message. \<^verbatim>\<open>subscribe\<close> has no check
  of \<open>qos\<close>: with a callback set it writes the SUBSCRIBE packet with the requested-QoS
  byte 2 and returns normally when the matching SUBACK arrives.
\<close>

theorem qos2_packet_is_sent:
  assumes "sock c = Some s" and "status s = Connected" and "wfail s = []"
    and "publish_size topic msg 2 < 2097152"
  shows "(\<exists>pkt i. encode_len [publish_flags retain 2, 0, 0, 0] 1 (publish_size topic msg 2) = Inr (pkt, i) \<and>
            simple_publish topic msg retain 2 c =
              (Inl AssertionError,
               c\<lparr>pid := pid c + 1,
                  sock := Some (s\<lparr>tx := tx s @ take (i + 1) pkt @ pack_H (int (length topic)) @
                                        topic @ pack_H (pid c + 1) @ msg\<rparr>)\<rparr>)) \<and>
         (\<forall>l g rest. cb c \<and> g \<noteq> 0x80 \<and> rx s = map B ([0x90, l] @ pack_H (pid c + 1) @ [g]) @ rest \<longrightarrow>
            simple_subscribe topic 2 c =
              (Inr (),
               c\<lparr>pid := pid c + 1,
                  sock := Some (s\<lparr>tx := tx s @ [0x82, pack_B (5 + int (length topic))] @
                                        pack_H (pid c + 1) @ pack_H (int (length topic)) @ topic @ [0x02],
                                  rx := rest, rd := rd s @ [0x90, l] @ pack_H (pid c + 1) @ [g]\<rparr>)\<rparr>))"
proof (intro conjI allI impI)
  from publish_sends [OF assms, of retain]
  show "\<exists>pkt i. encode_len [publish_flags retain 2, 0, 0, 0] 1 (publish_size topic msg 2) = Inr (pkt, i) \<and>
            simple_publish topic msg retain 2 c =
              (Inl AssertionError,
               c\<lparr>pid := pid c + 1,
                  sock := Some (s\<lparr>tx := tx s @ take (i + 1) pkt @ pack_H (int (length topic)) @
                                        topic @ pack_H (pid c + 1) @ msg\<rparr>)\<rparr>)"
    by (simp add: raise_def)
next
  fix l g rest
  assume a: "cb c \<and> g \<noteq> 0x80 \<and> rx s = map B ([0x90, l] @ pack_H (pid c + 1) @ [g]) @ rest"
  then have "cb c" "rx s = map B ([0x90, l] @ pack_H (pid c + 1) @ [g]) @ rest" by simp_all
  from subscribe_granted [OF this(1) assms(1-3) this(2), of topic 2] a
  show "simple_subscribe topic 2 c =
              (Inr (),
               c\<lparr>pid := pid c + 1,
                  sock := Some (s\<lparr>tx := tx s @ [0x82, pack_B (5 + int (length topic))] @
                                        pack_H (pid c + 1) @ pack_H (int (length topic)) @ topic @ [0x02],
                                  rx := rest, rd := rd s @ [0x90, l] @ pack_H (pid c + 1) @ [g]\<rparr>)\<rparr>)"
    by simp
qed

theorem qos2_packet_is_sent_witness:
  "simple_publish [0x61, 0x62] [0x68, 0x69] True 2
       (set_callback (demo [])\<lparr>sock := Some (connected (map B [0x90, 0x03, 0x00, 0x01, 0x01]))\<rparr>) =
     (Inl AssertionError,
      set_callback (demo [])\<lparr>pid := 1,
         sock := Some (connected (map B [0x90, 0x03, 0x00, 0x01, 0x01])
                        \<lparr>tx := [0x35, 0x08, 0x00, 0x02, 0x61, 0x62, 0x00, 0x01, 0x68, 0x69]\<rparr>)\<rparr>) \<and>
   simple_subscribe [0x61, 0x62] 2
       (set_callback (demo [])\<lparr>sock := Some (connected (map B [0x90, 0x03, 0x00, 0x01, 0x01]))\<rparr>) =
     (Inr (),
      set_callback (demo [])\<lparr>pid := 1,
         sock := Some (connected (map B [0x90, 0x03, 0x00, 0x01, 0x01])
                        \<lparr>tx := [0x82, 0x07, 0x00, 0x01, 0x00, 0x02, 0x61, 0x62, 0x02],
                           rx := [], rd := [0x90, 0x03, 0x00, 0x01, 0x01]\<rparr>)\<rparr>)"
proof -
  have p: "pid (set_callback (demo [])) = 0" "cb (set_callback (demo []))"
    by (simp_all add: demo_def init_def set_callback_def)
  have e: "encode_len [0x35, 0, 0, 0] (Suc 0) 8 = Inr ([0x35, 0x08, 0, 0], 1)"
    by (simp add: encode_len.simps)
  from qos2_packet_is_sent
    [where c = "set_callback (demo [])\<lparr>sock := Some (connected (map B [0x90, 0x03, 0x00, 0x01, 0x01]))\<rparr>"
       and s = "connected (map B [0x90, 0x03, 0x00, 0x01, 0x01])"
       and topic = "[0x61, 0x62]" and msg = "[0x68, 0x69]" and retain = True]
  show ?thesis
    by (simp add: p e connected_def fresh_socket_def publish_size_def publish_flags_def pack_H_def
        pack_B_def)
qed

text \<open>
  C10 as the specification states it: for a topic longer than 250 bytes the value
  \<open>5 + len(topic)\<close> does not fit one byte and the encoding step itself fails. On
  MicroPython it does not fail: \<^verbatim>\<open>struct.pack_into\<close> stores the low eight bits. With a
  topic of 251 bytes the length byte is \<open>0\<close>, the frame is written and \<^verbatim>\<open>subscribe\<close>
  returns when the SUBACK comes.
\<close>

theorem subscribe_long_topic_counterexample:
  "simple_subscribe (replicate 251 0x61) 0
       (set_callback (demo [])\<lparr>sock := Some (connected (map B [0x90, 0x03, 0x00, 0x01, 0x00]))\<rparr>) =
     (Inr (),
      set_callback (demo [])\<lparr>pid := 1,
         sock := Some (connected (map B [0x90, 0x03, 0x00, 0x01, 0x00])
                        \<lparr>tx := [0x82, 0x00, 0x00, 0x01, 0x00, 0xFB] @ replicate 251 0x61 @ [0x00],
                           rx := [], rd := [0x90, 0x03, 0x00, 0x01, 0x00]\<rparr>)\<rparr>)"
proof -
  have p: "pid (set_callback (demo [])) = 0" "cb (set_callback (demo []))"
    by (simp_all add: demo_def init_def set_callback_def)
  from subscribe_granted
    [where c = "set_callback (demo [])\<lparr>sock := Some (connected (map B [0x90, 0x03, 0x00, 0x01, 0x00]))\<rparr>"
       and s = "connected (map B [0x90, 0x03, 0x00, 0x01, 0x00])"
       and topic = "replicate 251 0x61" and qos = 0 and l = "0x03" and g = "0x00" and rest = "[]"]
  show ?thesis
    by (simp add: p connected_def fresh_socket_def pack_H_def pack_B_def)
qed

text \<open>
  C10, amended. \<^verbatim>\<open>subscribe\<close> (callback set, connected socket, writes succeeding)
  always writes the remaining length of the SUBSCRIBE packet as one byte, the low eight
  bits of \<open>5 + len(topic)\<close>, never with the continuation encoding of \<^verbatim>\<open>publish\<close> and
  \<^verbatim>\<open>connect\<close>. Up to 250 bytes of topic the byte is \<open>5 + len(topic)\<close> itself. From
  123 to 250 bytes its top bit is set, and it is the first byte only of the two bytes the
  encoding loop of \<^verbatim>\<open>publish\<close> gives for this value. Above 250 bytes the value does not
  fit one byte; the byte written is its remainder modulo 256 and no error is raised.
\<close>

theorem subscribe_length_is_one_byte:
  assumes "cb c" and "sock c = Some s" and "status s = Connected" and "wfail s = []"
  shows "simple_subscribe topic qos c =
           subscribe_wait ([0x82, pack_B (5 + int (length topic))] @ pack_H (pid c + 1))
             (c\<lparr>pid := pid c + 1,
                sock := Some (s\<lparr>tx := tx s @ [0x82, pack_B (5 + int (length topic))] @
                                      pack_H (pid c + 1) @ pack_H (int (length topic)) @ topic @
                                      [of_nat qos]\<rparr>)\<rparr>) \<and>
         uint (pack_B (5 + int (length topic))) = (5 + int (length topic)) mod 256 \<and>
         (length topic \<le> 250 \<longrightarrow> uint (pack_B (5 + int (length topic))) = 5 + int (length topic)) \<and>
         (122 < length topic \<and> length topic \<le> 250 \<longrightarrow>
            pack_B (5 + int (length topic)) AND 0x80 \<noteq> 0 \<and>
            encode_len [0x82, 0, 0, 0] 1 (5 + int (length topic)) =
              Inr ([0x82, pack_B (5 + int (length topic)), 0x01, 0], 2))"
proof (intro conjI impI)
  show "simple_subscribe topic qos c =
           subscribe_wait ([0x82, pack_B (5 + int (length topic))] @ pack_H (pid c + 1))
             (c\<lparr>pid := pid c + 1,
                sock := Some (s\<lparr>tx := tx s @ [0x82, pack_B (5 + int (length topic))] @
                                      pack_H (pid c + 1) @ pack_H (int (length topic)) @ topic @
                                      [of_nat qos]\<rparr>)\<rparr>)"
    using assms by (rule subscribe_sends)
next
  show m: "uint (pack_B (5 + int (length topic))) = (5 + int (length topic)) mod 256"
    unfolding pack_B_def by (simp only: uint_word_of_int) simp
  assume "length topic \<le> 250"
  with m show "uint (pack_B (5 + int (length topic))) = 5 + int (length topic)" by simp
next
  assume "122 < length topic \<and> length topic \<le> 250"
  then have r: "128 \<le> 5 + int (length topic)" "5 + int (length topic) < 256" by simp_all
  from top_bit_byte [OF r] show "pack_B (5 + int (length topic)) AND 0x80 \<noteq> 0"
    by (simp add: pack_B_def)
  from encode_len_two [OF r]
  show "encode_len [0x82, 0, 0, 0] 1 (5 + int (length topic)) =
      Inr ([0x82, pack_B (5 + int (length topic)), 0x01, 0], 2)"
    by (simp add: pack_B_def)
qed

theorem subscribe_length_is_one_byte_witness:
  "uint (pack_B (5 + int (length (replicate 123 (0x61 :: byte))))) = 128 \<and>
   pack_B (5 + int (length (replicate 123 (0x61 :: byte)))) AND 0x80 \<noteq> 0 \<and>
   encode_len [0x82, 0, 0, 0] 1 (5 + int (length (replicate 123 (0x61 :: byte)))) =
     Inr ([0x82, 0x80, 0x01, 0], 2) \<and>
   simple_subscribe (replicate 123 0x61) 1
       (set_callback (demo [])\<lparr>sock := Some (connected [])\<rparr>) =
     subscribe_wait [0x82, 0x80, 0x00, 0x01]
       (set_callback (demo [])\<lparr>pid := 1,
          sock := Some (connected []\<lparr>tx := [0x82, 0x80, 0x00, 0x01, 0x00, 0x7B] @
                                             replicate 123 0x61 @ [0x01]\<rparr>)\<rparr>)"
proof -
  have p: "pid (set_callback (demo [])) = 0" "cb (set_callback (demo []))"
    by (simp_all add: demo_def init_def set_callback_def)
  from subscribe_length_is_one_byte
    [where c = "set_callback (demo [])\<lparr>sock := Some (connected [])\<rparr>" and s = "connected []"
       and topic = "replicate 123 0x61" and qos = 1]
  show ?thesis
    by (simp add: p connected_def fresh_socket_def pack_H_def pack_B_def)
qed

text \<open>
  C4. A call of \<^verbatim>\<open>publish\<close> with \<open>qos = 1\<close> that returns normally has taken the
  identifier \<open>pid + 1\<close>, and the last four bytes it read from the socket are a PUBACK
  (\<open>0x40\<close>, \<open>0x02\<close>) with this identifier, high byte first. When the packet is sent
  (connected socket, writes succeeding, size below 2097152) and the next four bytes on
  the stream are a PUBACK, the call returns if its identifier is the one taken, and
  otherwise keeps waiting for the same identifier on the rest of the stream.
\<close>

theorem qos1_publish_waits_for_matching_puback:
  "(simple_publish topic msg retain 1 c = (Inr (), c') \<longrightarrow>
      (\<exists>pre hi lo. rd_of c' = rd_of c @ pre @ [0x40, 0x02, hi, lo] \<and>
         pid c' = pid c + 1 \<and> push_bit 8 (uint hi) OR uint lo = pid c + 1)) \<and>
   (sock c = Some s \<and> status s = Connected \<and> wfail s = [] \<and>
    publish_size topic msg 1 < 2097152 \<and> rx s = map B [0x40, 0x02, h, l] @ rest \<longrightarrow>
      (\<exists>sent. simple_publish topic msg retain 1 c =
         (if push_bit 8 (uint h) OR uint l = pid c + 1
          then (Inr (), c\<lparr>pid := pid c + 1,
                           sock := Some (s\<lparr>tx := tx s @ sent, rx := rest,
                                           rd := rd s @ [0x40, 0x02, h, l]\<rparr>)\<rparr>)
          else publish_wait (pid c + 1)
                 (c\<lparr>pid := pid c + 1,
                    sock := Some (s\<lparr>tx := tx s @ sent, rx := rest,
                                    rd := rd s @ [0x40, 0x02, h, l]\<rparr>)\<rparr>))))"
proof (intro conjI impI)
  assume "simple_publish topic msg retain 1 c = (Inr (), c')"
  then show "\<exists>pre hi lo. rd_of c' = rd_of c @ pre @ [0x40, 0x02, hi, lo] \<and>
         pid c' = pid c + 1 \<and> push_bit 8 (uint hi) OR uint lo = pid c + 1"
    by (rule simple_publish_qos1_returns)
next
  assume a: "sock c = Some s \<and> status s = Connected \<and> wfail s = [] \<and>
    publish_size topic msg 1 < 2097152 \<and> rx s = map B [0x40, 0x02, h, l] @ rest"
  then have s: "sock c = Some s" "status s = Connected" "wfail s = []"
    and sz: "publish_size topic msg 1 < 2097152"
    and rx: "rx s = map B [0x40, 0x02, h, l] @ rest" by simp_all
  from publish_sends [OF s sz, of retain] obtain pkt i
    where p: "simple_publish topic msg retain 1 c =
        publish_wait (pid c + 1)
          (c\<lparr>pid := pid c + 1,
             sock := Some (s\<lparr>tx := tx s @ take (i + 1) pkt @ pack_H (int (length topic)) @ topic @
                                   pack_H (pid c + 1) @ msg\<rparr>)\<rparr>)"
    by auto
  let ?sent = "take (i + 1) pkt @ pack_H (int (length topic)) @ topic @ pack_H (pid c + 1) @ msg"
  let ?s1 = "s\<lparr>tx := tx s @ ?sent\<rparr>"
  let ?c1 = "c\<lparr>pid := pid c + 1, sock := Some ?s1\<rparr>"
  have "publish_wait (pid c + 1) ?c1 =
     (if pid c + 1 = push_bit 8 (uint h) OR uint l
      then (Inr (), ?c1\<lparr>sock := Some (?s1\<lparr>rx := rest, rd := rd ?s1 @ [0x40, 0x02, h, l]\<rparr>)\<rparr>)
      else publish_wait (pid c + 1)
             (?c1\<lparr>sock := Some (?s1\<lparr>rx := rest, rd := rd ?s1 @ [0x40, 0x02, h, l]\<rparr>)\<rparr>))"
    using s rx by (intro publish_wait_puback) simp_all
  with p have "simple_publish topic msg retain 1 c =
         (if push_bit 8 (uint h) OR uint l = pid c + 1
          then (Inr (), c\<lparr>pid := pid c + 1,
                           sock := Some (s\<lparr>tx := tx s @ ?sent, rx := rest,
                                           rd := rd s @ [0x40, 0x02, h, l]\<rparr>)\<rparr>)
          else publish_wait (pid c + 1)
                 (c\<lparr>pid := pid c + 1,
                    sock := Some (s\<lparr>tx := tx s @ ?sent, rx := rest,
                                    rd := rd s @ [0x40, 0x02, h, l]\<rparr>)\<rparr>))"
    by (simp add: eq_commute [of "pid c + 1"])
  then show "\<exists>sent. simple_publish topic msg retain 1 c =
         (if push_bit 8 (uint h) OR uint l = pid c + 1
          then (Inr (), c\<lparr>pid := pid c + 1,
                           sock := Some (s\<lparr>tx := tx s @ sent, rx := rest,
                                           rd := rd s @ [0x40, 0x02, h, l]\<rparr>)\<rparr>)
          else publish_wait (pid c + 1)
                 (c\<lparr>pid := pid c + 1,
                    sock := Some (s\<lparr>tx := tx s @ sent, rx := rest,
                                    rd := rd s @ [0x40, 0x02, h, l]\<rparr>)\<rparr>))"
    by (rule exI)
qed

theorem qos1_publish_waits_for_matching_puback_witness:
  "simple_publish [0x74] [0x6D] False 1
       (demo []\<lparr>sock := Some (connected (map B [0x40, 0x02, 0x00, 0x07, 0x40, 0x02, 0x00, 0x01]))\<rparr>) =
     (Inr (),
      demo []\<lparr>pid := 1,
         sock := Some (connected (map B [0x40, 0x02, 0x00, 0x07, 0x40, 0x02, 0x00, 0x01])
                        \<lparr>tx := [0x32, 0x06, 0x00, 0x01, 0x74, 0x00, 0x01, 0x6D], rx := [],
                           rd := [0x40, 0x02, 0x00, 0x07, 0x40, 0x02, 0x00, 0x01]\<rparr>)\<rparr>) \<and>
   (\<exists>pre hi lo.
      rd_of (demo []\<lparr>pid := 1,
         sock := Some (connected (map B [0x40, 0x02, 0x00, 0x07, 0x40, 0x02, 0x00, 0x01])
                        \<lparr>tx := [0x32, 0x06, 0x00, 0x01, 0x74, 0x00, 0x01, 0x6D], rx := [],
                           rd := [0x40, 0x02, 0x00, 0x07, 0x40, 0x02, 0x00, 0x01]\<rparr>)\<rparr>) =
        rd_of (demo []\<lparr>sock := Some (connected (map B [0x40, 0x02, 0x00, 0x07, 0x40, 0x02, 0x00, 0x01]))\<rparr>)
          @ pre @ [0x40, 0x02, hi, lo] \<and>
      push_bit 8 (uint hi) OR uint lo = (1::int))"
proof -
  let ?c = "demo []\<lparr>sock := Some (connected (map B [0x40, 0x02, 0x00, 0x07, 0x40, 0x02, 0x00, 0x01]))\<rparr>"
  let ?c' = "demo []\<lparr>pid := 1,
         sock := Some (connected (map B [0x40, 0x02, 0x00, 0x07, 0x40, 0x02, 0x00, 0x01])
                        \<lparr>tx := [0x32, 0x06, 0x00, 0x01, 0x74, 0x00, 0x01, 0x6D], rx := [],
                           rd := [0x40, 0x02, 0x00, 0x07, 0x40, 0x02, 0x00, 0x01]\<rparr>)\<rparr>"
  have run: "simple_publish [0x74] [0x6D] False 1 ?c = (Inr (), ?c')"
    by code_simp
  have p: "pid ?c = 0" by (simp add: demo_def init_def)
  from qos1_publish_waits_for_matching_puback
    [where c = ?c and c' = ?c' and topic = "[0x74]" and msg = "[0x6D]" and retain = False]
    run p
  show ?thesis by simp
qed

text \<open>
  C3. The packet identifier is a 16-bit value that is never 0, and the identifier
  allocated after 65535 is 1. The code misses the wrap-around. At \<^verbatim>\<open>self.pid = 65535\<close>,
  \<^verbatim>\<open>self.pid += 1\<close> gives 65536 and the two identifier bytes written are \<open>00 00\<close>.
  \<^verbatim>\<open>publish\<close> at QoS 1 then compares 65536 with the two-byte identifier of the PUBACK:
  the PUBACK \<open>40 02 00 00\<close> that answers its packet is not accepted, and the call ends
  with \<^verbatim>\<open>OSError\<close> at the end of the stream. \<^verbatim>\<open>subscribe\<close>, which compares the bytes,
  accepts the SUBACK for identifier \<open>00 00\<close>.
\<close>

theorem packet_identifier_after_65535:
  "simple_publish [0x74] [0x6D] False 1
     (demo []\<lparr>pid := 65535, sock := Some (connected (map B [0x40, 0x02, 0x00, 0x00]))\<rparr>) =
   (Inl OSError,
    demo []\<lparr>pid := 65536,
       sock := Some (connected []
         \<lparr>tx := [0x32, 0x06, 0x00, 0x01, 0x74, 0x00, 0x00, 0x6D],
            rd := [0x40, 0x02, 0x00, 0x00]\<rparr>)\<rparr>) \<and>
   simple_subscribe [0x74] 0
     (set_callback (demo [])\<lparr>pid := 65535,
        sock := Some (connected (map B [0x90, 0x03, 0x00, 0x00, 0x00]))\<rparr>) =
   (Inr (),
    set_callback (demo [])\<lparr>pid := 65536,
       sock := Some (connected []
         \<lparr>tx := [0x82, 0x06, 0x00, 0x00, 0x00, 0x01, 0x74, 0x00],
            rd := [0x90, 0x03, 0x00, 0x00, 0x00]\<rparr>)\<rparr>)"
  by code_simp

text \<open>
  C6. After a transport error the wrapper reconnects and retries the operation until
  it succeeds. For \<^verbatim>\<open>publish\<close> at QoS 1 the code does not: when the read of the PUBACK
  wait raises \<^verbatim>\<open>OSError\<close>, it is the wrapped \<^verbatim>\<open>wait_msg\<close>, called from the inherited
  loop, that catches it, reconnects and goes on waiting for the old identifier. The
  PUBLISH is not sent again: only CONNECT is written to the new connection. If a PUBACK
  with identifier 1 comes there, the call returns; if the PUBACK that a second PUBLISH
  would have got (identifier 2) comes, the call reads on to the end of the stream and
  then, the network being down, never returns.
\<close>

theorem wrapped_publish_not_sent_again:
  "robust_publish [0x74] [0x6D] False 1
     (demo [Accepted (map B [0x20, 0x02, 0x00, 0x00, 0x40, 0x02, 0x00, 0x01]) []]
        \<lparr>sock := Some (connected [Err])\<rparr>) =
   Some (Inr (),
     demo []\<lparr>pid := 1,
        sock := Some (connected []
          \<lparr>tx := [0x10, 0x0E, 0x00, 0x04, 0x4D, 0x51, 0x54, 0x54, 0x04, 0x00, 0x00, 0x00,
                   0x00, 0x02, 0x63, 0x31],
             rd := [0x20, 0x02, 0x00, 0x00, 0x40, 0x02, 0x00, 0x01]\<rparr>)\<rparr>) \<and>
   robust_publish [0x74] [0x6D] False 1
     (demo [Accepted (map B [0x20, 0x02, 0x00, 0x00, 0x40, 0x02, 0x00, 0x02]) []]
        \<lparr>sock := Some (connected [Err])\<rparr>) = None"
proof
  show "robust_publish [0x74] [0x6D] False 1
     (demo [Accepted (map B [0x20, 0x02, 0x00, 0x00, 0x40, 0x02, 0x00, 0x01]) []]
        \<lparr>sock := Some (connected [Err])\<rparr>) =
   Some (Inr (),
     demo []\<lparr>pid := 1,
        sock := Some (connected []
          \<lparr>tx := [0x10, 0x0E, 0x00, 0x04, 0x4D, 0x51, 0x54, 0x54, 0x04, 0x00, 0x00, 0x00,
                   0x00, 0x02, 0x63, 0x31],
             rd := [0x20, 0x02, 0x00, 0x00, 0x40, 0x02, 0x00, 0x01]\<rparr>)\<rparr>)"
    by code_simp
next
  let ?c0 = "demo [Accepted (map B [0x20, 0x02, 0x00, 0x00, 0x40, 0x02, 0x00, 0x02]) []]
        \<lparr>sock := Some (connected [Err])\<rparr>"
  let ?c1 = "demo [Accepted (map B [0x20, 0x02, 0x00, 0x00, 0x40, 0x02, 0x00, 0x02]) []]
        \<lparr>pid := 1,
           sock := Some (connected [Err]\<lparr>tx := [0x32, 0x06, 0x00, 0x01, 0x74, 0x00, 0x01, 0x6D]\<rparr>)\<rparr>"
  let ?tx = "[0x10, 0x0E, 0x00, 0x04, 0x4D, 0x51, 0x54, 0x54, 0x04, 0x00, 0x00, 0x00,
                   0x00, 0x02, 0x63, 0x31] :: bytes"
  let ?c2 = "demo []\<lparr>pid := 1,
        sock := Some (connected (map B [0x02, 0x00, 0x02])
          \<lparr>tx := ?tx, rd := [0x20, 0x02, 0x00, 0x00, 0x40]\<rparr>)\<rparr>"
  let ?c3 = "demo []\<lparr>pid := 1,
        sock := Some (connected (map B [0x00, 0x02])
          \<lparr>tx := ?tx, rd := [0x20, 0x02, 0x00, 0x00, 0x40, 0x02]\<rparr>)\<rparr>"
  let ?c4 = "demo []\<lparr>pid := 1,
        sock := Some (connected []
          \<lparr>tx := ?tx, rd := [0x20, 0x02, 0x00, 0x00, 0x40, 0x02, 0x00, 0x02]\<rparr>)\<rparr>"
  have h: "publish_head [0x74] [0x6D] False 1 ?c0 = (Inr 1, ?c1)" by code_simp
  have w1: "robust_wait_msg ?c1 = Some (Inr (Some 0x40), ?c2)" by code_simp
  have r1: "sread 1 ?c2 = (Inr (Some [0x02]), ?c3)" by code_simp
  have r2: "bnd (sread 2) be16 ?c3 = (Inr 2, ?c4)" by code_simp
  have e: "simple_wait_msg ?c4 = (Inl OSError, ?c4)" by code_simp
  have n: "net (log False OSError ?c4) = []" by code_simp
  have ne: "(1::int) \<noteq> 2" by simp
  have "robust_wait_msg ?c4 = None" using e n by (rule robust_wait_msg_hangs)
  then have "robust_publish_wait 1 ?c4 = None" by (rule robust_publish_wait_hangs)
  then have "robust_publish_wait 1 ?c1 = None"
    by (simp only: robust_publish_wait_mismatch [OF w1 r1 r2 ne])
  then have "super_publish [0x74] [0x6D] False 1 ?c0 = None"
    by (simp only: super_publish_qos1 [OF h])
  then show "robust_publish [0x74] [0x6D] False 1 ?c0 = None"
    by (rule robust_publish_hangs)
qed








end
